theory Spec2Isabelle
  imports Main "HOL-Library.Word"
begin

unbundle bit_operations_syntax

section \<open>The cave map generator\<close>

text \<open>
  The source keeps the map in the static array \<open>uint8_t map_data[MAP_HEIGHT][MAP_WIDTH]\<close>
  (1 = wall, 0 = empty) and the flood-fill marks in a flat \<open>calloc\<close>ed array
  \<open>accessible_spots\<close> of \<open>MAP_WIDTH * MAP_HEIGHT\<close> bytes, addressed as
  \<open>y * MAP_WIDTH + x\<close>. Both are row-major byte arrays (the source itself copies
  \<open>map_data\<close> with one \<open>memcpy\<close> of \<open>MAP_WIDTH * MAP_HEIGHT\<close> bytes), so both are lists
  of bytes here, and \<open>map_data[y][x]\<close> is the element \<open>y * w + x\<close>.

  The macros \<open>MAP_WIDTH\<close> and \<open>MAP_HEIGHT\<close> are the parameters \<open>w\<close> and \<open>h\<close> of every
  function; the source fixes both at 160. Coordinates are C \<open>int\<close>s and stay far from
  the limits of that type, so they are \<open>int\<close> here. On the non-negative values that
  occur, C's division is HOL's \<open>div\<close>.
\<close>

type_synonym cells = "8 word list"
type_synonym XY = "int \<times> int"

definition MAP_WIDTH :: int where
  "MAP_WIDTH = 160"

definition MAP_HEIGHT :: int where
  "MAP_HEIGHT = 160"

definition VARIATION_MASK :: int where
  "VARIATION_MASK = 0x70"

definition WALL_TILE_INDEX :: int where
  "WALL_TILE_INDEX = 0x80"

text \<open>
  An access outside an array is undefined behaviour in C. The model makes it a value:
  a write or read whose index the source does not guard returns \<open>OutOfBounds\<close>.
  The other errors are the early returns of \<open>main\<close>.
  Allocation (\<open>malloc\<close>, \<open>calloc\<close>, \<open>realloc\<close>) is taken to succeed; the source
  leaves the process with \<open>exit(EXIT_FAILURE)\<close> otherwise.
\<close>

datatype error = OutOfBounds | Usage | StdoutIsTty | ErrorReading | UnexpectedTileSize | ErrorLoading

definition cell_index :: "int \<Rightarrow> int \<Rightarrow> int \<Rightarrow> nat" where
  "cell_index w x y = nat (y * w + x)"

definition in_map :: "int \<Rightarrow> int \<Rightarrow> int \<Rightarrow> int \<Rightarrow> bool" where
  "in_map w h x y \<longleftrightarrow> \<not> (x < 0 \<or> x \<ge> w \<or> y < 0 \<or> y \<ge> h)"

text \<open>The macro \<open>MAP_DATA(x, y)\<close>: outside the map a cell reads as wall.\<close>

definition MAP_DATA :: "int \<Rightarrow> int \<Rightarrow> cells \<Rightarrow> int \<Rightarrow> int \<Rightarrow> int" where
  "MAP_DATA w h map_data x y =
     (if x < 0 \<or> x \<ge> w \<or> y < 0 \<or> y \<ge> h then 1
      else uint (map_data ! cell_index w x y))"

text \<open>An unguarded store \<open>map_data[y][x] = v\<close>.\<close>

definition store_cell :: "int \<Rightarrow> int \<Rightarrow> cells \<Rightarrow> int \<Rightarrow> int \<Rightarrow> 8 word \<Rightarrow> error + cells" where
  "store_cell w h map_data x y v =
     (if in_map w h x y then Inr (map_data[cell_index w x y := v]) else Inl OutOfBounds)"

subsection \<open>The two nested loops over the map\<close>

text \<open>
  Every pass of the source has the shape
  \<open>for(y = 0; y < MAP_HEIGHT; y++) for(x = 0; x < MAP_WIDTH; x++) body\<close>.
\<close>

definition for_cells :: "int \<Rightarrow> int \<Rightarrow> (int \<Rightarrow> int \<Rightarrow> 'a \<Rightarrow> 'a) \<Rightarrow> 'a \<Rightarrow> 'a" where
  "for_cells w h body st =
     fold (\<lambda>y. fold (\<lambda>x. body x y) (map int [0..<nat w])) (map int [0..<nat h]) st"

subsection \<open>VisitStack\<close>

text \<open>
  \<open>typedef struct { XY *s; int size, capacity; } VisitStack\<close>. The array \<open>s\<close> is a list
  as long as the capacity; \<open>realloc\<close> keeps the old elements and the new ones, which C
  leaves indeterminate, are \<open>(0, 0)\<close>: no element is read before \<open>Push\<close> has written it.
\<close>

record VisitStack =
  stack_s :: "XY list"
  stack_size :: int
  stack_capacity :: int

definition empty_stack :: VisitStack where
  "empty_stack = \<lparr>stack_s = [], stack_size = 0, stack_capacity = 0\<rparr>"

definition realloc :: "XY list \<Rightarrow> int \<Rightarrow> XY list" where
  "realloc xs n = take (nat n) xs @ replicate (nat n - length xs) (0, 0)"

definition Push :: "VisitStack \<Rightarrow> int \<Rightarrow> int \<Rightarrow> VisitStack" where
  "Push stack x y =
     (let stack1 =
        (if stack_size stack \<ge> stack_capacity stack then
           let cap = (if stack_capacity stack = 0 then 16 else stack_capacity stack * 2)
           in stack\<lparr>stack_capacity := cap, stack_s := realloc (stack_s stack) cap\<rparr>
         else stack)
      in stack1\<lparr>stack_s := (stack_s stack1)[nat (stack_size stack1) := (x, y)],
                stack_size := stack_size stack1 + 1\<rparr>)"

definition Pop :: "VisitStack \<Rightarrow> VisitStack \<times> int \<times> int" where
  "Pop stack =
     (let stack1 = stack\<lparr>stack_size := stack_size stack - 1\<rparr>
      in (stack1, fst (stack_s stack1 ! nat (stack_size stack1)),
                  snd (stack_s stack1 ! nat (stack_size stack1))))"

subsection \<open>FillMapHoles\<close>

text \<open>The seed: a 3x3 space carved at the centre of the map, nine unguarded stores.\<close>

definition carve :: "int \<Rightarrow> int \<Rightarrow> cells \<Rightarrow> error + cells" where
  "carve w h map_data =
     (let x = w div 2; y = h div 2 in
      case store_cell w h map_data (x - 1) (y - 1) 0 of Inl e \<Rightarrow> Inl e | Inr m1 \<Rightarrow>
      case store_cell w h m1 x (y - 1) 0 of Inl e \<Rightarrow> Inl e | Inr m2 \<Rightarrow>
      case store_cell w h m2 (x + 1) (y - 1) 0 of Inl e \<Rightarrow> Inl e | Inr m3 \<Rightarrow>
      case store_cell w h m3 (x - 1) y 0 of Inl e \<Rightarrow> Inl e | Inr m4 \<Rightarrow>
      case store_cell w h m4 x y 0 of Inl e \<Rightarrow> Inl e | Inr m5 \<Rightarrow>
      case store_cell w h m5 (x + 1) y 0 of Inl e \<Rightarrow> Inl e | Inr m6 \<Rightarrow>
      case store_cell w h m6 (x - 1) (y + 1) 0 of Inl e \<Rightarrow> Inl e | Inr m7 \<Rightarrow>
      case store_cell w h m7 x (y + 1) 0 of Inl e \<Rightarrow> Inl e | Inr m8 \<Rightarrow>
      store_cell w h m8 (x + 1) (y + 1) 0)"

text \<open>The table \<open>offsets[8]\<close> of the push loop.\<close>

definition offsets :: "XY list" where
  "offsets = [(1, 0), (0, 1), (-1, 0), (0, -1), (1, 1), (-1, 1), (-1, -1), (1, -1)]"

text \<open>The macro \<open>MARK_ACCESSIBLE_NEIGHBOR(x, y)\<close> and its eight uses, in the source's order.\<close>

definition MARK_ACCESSIBLE_NEIGHBOR :: "int \<Rightarrow> int \<Rightarrow> int \<Rightarrow> int \<Rightarrow> cells \<Rightarrow> cells" where
  "MARK_ACCESSIBLE_NEIGHBOR w h x y accessible_spots =
     (if x \<ge> 0 \<and> x < w \<and> y \<ge> 0 \<and> y < h
      then accessible_spots[cell_index w x y := (accessible_spots ! cell_index w x y) OR 2]
      else accessible_spots)"

definition mark_neighbors :: "int \<Rightarrow> int \<Rightarrow> int \<Rightarrow> int \<Rightarrow> cells \<Rightarrow> cells" where
  "mark_neighbors w h x y accessible_spots =
     fold (\<lambda>(dx, dy). MARK_ACCESSIBLE_NEIGHBOR w h (x + dx) (y + dy))
       [(1, 0), (1, 1), (0, 1), (-1, 1), (-1, 0), (-1, -1), (0, -1), (1, -1)]
       accessible_spots"

text \<open>The test of the push loop: the 3x3 space around \<open>(x, y)\<close> is empty.\<close>

definition space_3x3 :: "int \<Rightarrow> int \<Rightarrow> cells \<Rightarrow> int \<Rightarrow> int \<Rightarrow> bool" where
  "space_3x3 w h map_data x y \<longleftrightarrow>
     MAP_DATA w h map_data x y = 0 \<and>
     MAP_DATA w h map_data (x + 1) y = 0 \<and>
     MAP_DATA w h map_data (x + 1) (y + 1) = 0 \<and>
     MAP_DATA w h map_data x (y + 1) = 0 \<and>
     MAP_DATA w h map_data (x - 1) (y + 1) = 0 \<and>
     MAP_DATA w h map_data (x - 1) y = 0 \<and>
     MAP_DATA w h map_data (x - 1) (y - 1) = 0 \<and>
     MAP_DATA w h map_data x (y - 1) = 0 \<and>
     MAP_DATA w h map_data (x + 1) (y - 1) = 0"

definition push_neighbors :: "int \<Rightarrow> int \<Rightarrow> cells \<Rightarrow> int \<Rightarrow> int \<Rightarrow> VisitStack \<Rightarrow> VisitStack" where
  "push_neighbors w h map_data x y fill_stack =
     fold (\<lambda>(dx, dy) stack.
             if space_3x3 w h map_data (x + dx) (y + dy) then Push stack (x + dx) (y + dy)
             else stack)
       offsets fill_stack"

text \<open>
  One iteration of \<open>while( fill_stack.size > 0 )\<close>. The popped coordinate indexes the flat
  array \<open>accessible_spots\<close> without a guard.
\<close>

definition flood_step :: "int \<Rightarrow> int \<Rightarrow> cells \<Rightarrow> VisitStack \<times> cells \<Rightarrow> error + VisitStack \<times> cells" where
  "flood_step w h map_data st =
     (let (fill_stack, accessible_spots) = st;
          (stack1, x, y) = Pop fill_stack;
          i = y * w + x
      in if i < 0 \<or> i \<ge> int (length accessible_spots) then Inl OutOfBounds
         else if (accessible_spots ! nat i) AND 1 \<noteq> 0 then Inr (stack1, accessible_spots)
         else Inr (push_neighbors w h map_data x y stack1,
                   mark_neighbors w h x y (accessible_spots[nat i := 1])))"

text \<open>The number of cells that do not carry bit 1 yet.\<close>

definition unmarked :: "cells \<Rightarrow> nat" where
  "unmarked accessible_spots = length (filter (\<lambda>v. v AND 1 = 0) accessible_spots)"

text \<open>
  The loop \<open>while( fill_stack.size > 0 )\<close>, returning \<open>accessible_spots\<close> as the loop leaves
  it (\<open>Destroy\<close> then frees the stack). Each iteration either marks a cell that was not
  marked, or only pops: the termination proof, with this measure, follows the definitions.
\<close>

function FloodFill :: "int \<Rightarrow> int \<Rightarrow> cells \<Rightarrow> VisitStack \<times> cells \<Rightarrow> error + cells" where
  "FloodFill w h map_data st =
     (if stack_size (fst st) > 0 then
        (case flood_step w h map_data st of
           Inl e \<Rightarrow> Inl e
         | Inr st' \<Rightarrow> FloodFill w h map_data st')
      else Inr (snd st))"
  by pat_completeness auto

text \<open>The number of iterations the same loop makes.\<close>

function flood_iterations :: "int \<Rightarrow> int \<Rightarrow> cells \<Rightarrow> VisitStack \<times> cells \<Rightarrow> nat" where
  "flood_iterations w h map_data st =
     (if stack_size (fst st) > 0 then
        (case flood_step w h map_data st of
           Inl e \<Rightarrow> 1
         | Inr st' \<Rightarrow> 1 + flood_iterations w h map_data st')
      else 0)"
  by pat_completeness auto

text \<open>
  The pass that keeps the single-cell holes: an empty cell whose mark is 0 and whose four
  orthogonal neighbours sum to 3 gets the mark 1. The pointer \<open>p\<close> walks
  \<open>accessible_spots\<close> in step with \<open>(x, y)\<close>; it is the offset \<open>p\<close> here.
\<close>

definition orthogonal_sum :: "int \<Rightarrow> int \<Rightarrow> cells \<Rightarrow> int \<Rightarrow> int \<Rightarrow> int" where
  "orthogonal_sum w h map_data x y =
     MAP_DATA w h map_data (x + 1) y +
     MAP_DATA w h map_data x (y + 1) +
     MAP_DATA w h map_data (x - 1) y +
     MAP_DATA w h map_data x (y - 1)"

definition mark_single_holes :: "int \<Rightarrow> int \<Rightarrow> cells \<Rightarrow> cells \<Rightarrow> cells" where
  "mark_single_holes w h map_data accessible_spots =
     snd (for_cells w h
       (\<lambda>x y (p, a).
          (p + 1,
           if map_data ! cell_index w x y = 0 \<and> a ! p = 0 \<and>
              orthogonal_sum w h map_data x y = 3
           then a[p := 1] else a))
       (0 :: nat, accessible_spots))"

text \<open>The last pass: every empty cell whose mark is 0 becomes wall.\<close>

definition fill_inaccessible :: "int \<Rightarrow> int \<Rightarrow> cells \<Rightarrow> cells \<Rightarrow> cells" where
  "fill_inaccessible w h map_data accessible_spots =
     snd (for_cells w h
       (\<lambda>x y (p, m).
          (p + 1,
           if m ! cell_index w x y = 0 \<and> accessible_spots ! p = 0
           then m[cell_index w x y := 1] else m))
       (0 :: nat, map_data))"

text \<open>
  \<open>accessible_spots\<close> as the flood fill leaves it, and as the last pass finds it. The
  stack starts zeroed (\<open>memset\<close>) and receives the centre; \<open>calloc\<close> gives
  \<open>MAP_WIDTH * MAP_HEIGHT\<close> zero bytes.
\<close>

definition flood_start :: "int \<Rightarrow> int \<Rightarrow> VisitStack \<times> cells" where
  "flood_start w h = (Push empty_stack (w div 2) (h div 2), replicate (nat (w * h)) 0)"

definition spots_after_flood :: "int \<Rightarrow> int \<Rightarrow> cells \<Rightarrow> error + cells" where
  "spots_after_flood w h map_data =
     (case carve w h map_data of
        Inl e \<Rightarrow> Inl e
      | Inr m \<Rightarrow> FloodFill w h m (flood_start w h))"

definition spots_before_seal :: "int \<Rightarrow> int \<Rightarrow> cells \<Rightarrow> error + cells" where
  "spots_before_seal w h map_data =
     (case carve w h map_data of
        Inl e \<Rightarrow> Inl e
      | Inr m \<Rightarrow>
          (case FloodFill w h m (flood_start w h) of
             Inl e \<Rightarrow> Inl e
           | Inr a \<Rightarrow> Inr (mark_single_holes w h m a)))"

definition FillMapHoles :: "int \<Rightarrow> int \<Rightarrow> cells \<Rightarrow> error + cells" where
  "FillMapHoles w h map_data =
     (case carve w h map_data of
        Inl e \<Rightarrow> Inl e
      | Inr m \<Rightarrow>
          (case FloodFill w h m (flood_start w h) of
             Inl e \<Rightarrow> Inl e
           | Inr a \<Rightarrow> Inr (fill_inaccessible w h m (mark_single_holes w h m a))))"

subsection \<open>SmoothMapCells\<close>

definition neighbor_count :: "int \<Rightarrow> int \<Rightarrow> cells \<Rightarrow> int \<Rightarrow> int \<Rightarrow> int" where
  "neighbor_count w h map_data x y =
     MAP_DATA w h map_data (x - 1) (y - 1) +
     MAP_DATA w h map_data x (y - 1) +
     MAP_DATA w h map_data (x + 1) (y - 1) +
     MAP_DATA w h map_data (x - 1) y +
     MAP_DATA w h map_data x y +
     MAP_DATA w h map_data (x + 1) y +
     MAP_DATA w h map_data (x - 1) (y + 1) +
     MAP_DATA w h map_data x (y + 1) +
     MAP_DATA w h map_data (x + 1) (y + 1)"

text \<open>
  The body of \<open>for(i = 0; i < 4; i++)\<close>: the new cells go to \<open>buffer\<close> through the
  pointer \<open>p\<close>, and \<open>memcpy\<close> then overwrites \<open>map_data\<close>. \<open>malloc\<close> leaves the contents
  of \<open>buffer\<close> indeterminate: they are an argument.
\<close>

definition smooth_buffer :: "int \<Rightarrow> int \<Rightarrow> cells \<Rightarrow> cells \<Rightarrow> cells" where
  "smooth_buffer w h map_data buffer =
     snd (for_cells w h
       (\<lambda>x y (p, b). (p + 1, b[p := (if neighbor_count w h map_data x y \<le> 4 then 0 else 1)]))
       (0 :: nat, buffer))"

definition memcpy :: "cells \<Rightarrow> cells \<Rightarrow> nat \<Rightarrow> cells" where
  "memcpy dst src n = take n src @ drop n dst"

definition smooth_pass :: "int \<Rightarrow> int \<Rightarrow> cells \<times> cells \<Rightarrow> cells \<times> cells" where
  "smooth_pass w h st =
     (let (map_data, buffer) = st;
          buffer1 = smooth_buffer w h map_data buffer
      in (memcpy map_data buffer1 (nat (w * h)), buffer1))"

definition SmoothMapCells :: "int \<Rightarrow> int \<Rightarrow> cells \<Rightarrow> cells \<Rightarrow> cells" where
  "SmoothMapCells w h map_data buffer =
     fst (fold (\<lambda>i. smooth_pass w h) [0 ..< 4] (map_data, buffer))"

subsection \<open>The random source, GenerateRandomMapCells and GenerateMapCells\<close>

text \<open>
  \<open>rand()\<close> has a hidden state. The model keeps the sequence of values the generator
  returns and how many it has returned. The test
  \<open>((float)rand() / (float)RAND_MAX) < 0.45\<close> is floating-point arithmetic on the
  value drawn: it is the argument \<open>below\<close>, a predicate on that value.
\<close>

record rand_source =
  draws :: "nat \<Rightarrow> int"
  drawn :: nat

definition rand :: "rand_source \<Rightarrow> int \<times> rand_source" where
  "rand r = (draws r (drawn r), r\<lparr>drawn := drawn r + 1\<rparr>)"

definition GenerateRandomMapCells ::
    "(int \<Rightarrow> bool) \<Rightarrow> int \<Rightarrow> int \<Rightarrow> cells \<times> rand_source \<Rightarrow> cells \<times> rand_source" where
  "GenerateRandomMapCells below w h st =
     for_cells w h
       (\<lambda>x y (m, r). let (v, r1) = rand r
                      in (m[cell_index w x y := (if below v then 1 else 0)], r1))
       st"

definition GenerateMapCells ::
    "(int \<Rightarrow> bool) \<Rightarrow> int \<Rightarrow> int \<Rightarrow> cells \<Rightarrow> cells \<Rightarrow> rand_source \<Rightarrow> error + cells \<times> rand_source" where
  "GenerateMapCells below w h map_data buffer r =
     (let (m1, r1) = GenerateRandomMapCells below w h (map_data, r);
          m2 = SmoothMapCells w h m1 buffer
      in case FillMapHoles w h m2 of
           Inl e \<Rightarrow> Inl e
         | Inr m3 \<Rightarrow> Inr (m3, r1))"

subsection \<open>GenerateMapPixels\<close>

text \<open>
  The tile index of an empty cell, \<open>v\<close> being the value of \<open>rand()\<close>. A wall cell gets
  \<open>WALL_TILE_INDEX\<close> and draws nothing. \<open>GenerateMapPixels\<close> hands each index to
  \<open>WriteTile\<close>; the model collects the indices in the order of the calls, which is the
  row-major order of the cells.
\<close>

definition empty_tile_index :: "int \<Rightarrow> int \<Rightarrow> cells \<Rightarrow> int \<Rightarrow> int \<Rightarrow> int \<Rightarrow> int" where
  "empty_tile_index w h map_data x y v =
     push_bit 0 (MAP_DATA w h map_data (x + 1) y) OR
     push_bit 1 (MAP_DATA w h map_data x (y + 1)) OR
     push_bit 2 (MAP_DATA w h map_data (x - 1) y) OR
     push_bit 3 (MAP_DATA w h map_data x (y - 1)) OR
     (v AND VARIATION_MASK)"

definition GenerateMapPixels :: "int \<Rightarrow> int \<Rightarrow> cells \<Rightarrow> rand_source \<Rightarrow> int list \<times> rand_source" where
  "GenerateMapPixels w h map_data r =
     for_cells w h
       (\<lambda>x y (tiles, r).
          if map_data ! cell_index w x y \<noteq> 0
          then (tiles @ [WALL_TILE_INDEX], r)
          else let (v, r1) = rand r in (tiles @ [empty_tile_index w h map_data x y v], r1))
       ([], r)"

subsection \<open>main\<close>

text \<open>
  What \<open>main\<close> looks at before it generates the map: the argument count, whether the
  output \<open>-\<close> would go to a terminal, and the tile image (readable, of the expected size,
  loadable). Decoding and encoding the images is libpng's work and is not modelled; the
  run yields the final \<open>map_data\<close> and the tile indices.
\<close>

record invocation =
  argc :: int
  output_is_dash :: bool
  stdout_isatty :: bool
  tiles_begin_read :: bool
  tiles_width :: int
  tiles_height :: int
  tiles_finish_read :: bool

definition TILE_SIZE :: int where
  "TILE_SIZE = 8"

definition TILE_IMAGE_WIDTH :: int where
  "TILE_IMAGE_WIDTH = TILE_SIZE * 16"

definition TILE_IMAGE_HEIGHT :: int where
  "TILE_IMAGE_HEIGHT = TILE_SIZE * 9"

definition generate ::
    "(int \<Rightarrow> bool) \<Rightarrow> int \<Rightarrow> int \<Rightarrow> cells \<Rightarrow> cells \<Rightarrow> rand_source \<Rightarrow> error + cells \<times> int list" where
  "generate below w h map_data buffer r =
     (case GenerateMapCells below w h map_data buffer r of
        Inl e \<Rightarrow> Inl e
      | Inr (m, r1) \<Rightarrow> Inr (m, fst (GenerateMapPixels w h m r1)))"

definition main ::
    "invocation \<Rightarrow> (int \<Rightarrow> bool) \<Rightarrow> cells \<Rightarrow> cells \<Rightarrow> rand_source \<Rightarrow> error + cells \<times> int list" where
  "main args below map_data buffer r =
     (if argc args \<noteq> 3 then Inl Usage
      else if output_is_dash args \<and> stdout_isatty args then Inl StdoutIsTty
      else if \<not> tiles_begin_read args then Inl ErrorReading
      else if tiles_width args \<noteq> TILE_IMAGE_WIDTH \<or> tiles_height args \<noteq> TILE_IMAGE_HEIGHT
        then Inl UnexpectedTileSize
      else if \<not> tiles_finish_read args then Inl ErrorLoading
      else generate below MAP_WIDTH MAP_HEIGHT map_data buffer r)"

section \<open>Notions used in the statements\<close>

text \<open>The number of empty cells before the cell \<open>k\<close>: so many values \<open>GenerateMapPixels\<close>
  has drawn when it reaches that cell.\<close>

definition empties_before :: "cells \<Rightarrow> nat \<Rightarrow> nat" where
  "empties_before map_data k = length (filter (\<lambda>c. c = 0) (take k map_data))"

text \<open>The elements a \<open>VisitStack\<close> holds, bottom first, and what makes the record sound:
  the size within the capacity, the capacity the length of the array.\<close>

definition stack_items :: "VisitStack \<Rightarrow> XY list" where
  "stack_items stack = take (nat (stack_size stack)) (stack_s stack)"

definition stack_ok :: "VisitStack \<Rightarrow> bool" where
  "stack_ok stack \<longleftrightarrow>
     0 \<le> stack_size stack \<and> stack_size stack \<le> stack_capacity stack \<and>
     stack_capacity stack = int (length (stack_s stack))"

text \<open>
  The centres the thick brush can reach: the centre of the map, and every cell that is the
  centre of an empty 3x3 space and is one of the eight cells around a centre already
  reached: another cell, at most one column and at most one row away. The eight
  directions are written out here; they are not read from the table \<open>offsets\<close> of the
  code. A cell is brushed when it is such a centre or one of the eight cells around one.
\<close>

inductive thick_reachable :: "int \<Rightarrow> int \<Rightarrow> cells \<Rightarrow> int \<Rightarrow> int \<Rightarrow> bool"
  for w h map_data where
  centre: "thick_reachable w h map_data (w div 2) (h div 2)"
| step: "thick_reachable w h map_data x y \<Longrightarrow> (x', y') \<noteq> (x, y) \<Longrightarrow>
         \<bar>x' - x\<bar> \<le> 1 \<Longrightarrow> \<bar>y' - y\<bar> \<le> 1 \<Longrightarrow>
         space_3x3 w h map_data x' y' \<Longrightarrow>
         thick_reachable w h map_data x' y'"

definition brushed :: "int \<Rightarrow> int \<Rightarrow> cells \<Rightarrow> int \<Rightarrow> int \<Rightarrow> bool" where
  "brushed w h map_data x y \<longleftrightarrow>
     (\<exists>cx cy. thick_reachable w h map_data cx cy \<and> \<bar>x - cx\<bar> \<le> 1 \<and> \<bar>y - cy\<bar> \<le> 1)"

definition interior :: "int \<Rightarrow> int \<Rightarrow> int \<Rightarrow> int \<Rightarrow> bool" where
  "interior w h x y \<longleftrightarrow> 1 \<le> x \<and> x \<le> w - 2 \<and> 1 \<le> y \<and> y \<le> h - 2"

text \<open>
  The invariant of the loop. Everything on the stack and everything carrying bit 1 is a
  centre the brush can reach; every cell with a mark is brushed; the centre of the map and
  every empty 3x3 centre next to a marked centre is marked or still on the stack; and the
  cells around a marked centre all carry a mark.
\<close>

definition flood_inv :: "int \<Rightarrow> int \<Rightarrow> cells \<Rightarrow> VisitStack \<times> cells \<Rightarrow> bool" where
  "flood_inv w h m st \<longleftrightarrow>
     stack_ok (fst st) \<and> length (snd st) = nat (w * h) \<and>
     (\<forall>x y. (x, y) \<in> set (stack_items (fst st)) \<longrightarrow> thick_reachable w h m x y) \<and>
     (\<forall>x y. in_map w h x y \<longrightarrow> snd st ! cell_index w x y AND 1 \<noteq> 0 \<longrightarrow> thick_reachable w h m x y) \<and>
     (\<forall>x y. in_map w h x y \<longrightarrow> snd st ! cell_index w x y \<noteq> 0 \<longrightarrow> brushed w h m x y) \<and>
     ((w div 2, h div 2) \<in> set (stack_items (fst st)) \<or>
      snd st ! cell_index w (w div 2) (h div 2) AND 1 \<noteq> 0) \<and>
     (\<forall>x y dx dy. in_map w h x y \<longrightarrow> snd st ! cell_index w x y AND 1 \<noteq> 0 \<longrightarrow>
        (dx, dy) \<in> set offsets \<longrightarrow> space_3x3 w h m (x + dx) (y + dy) \<longrightarrow>
        (x + dx, y + dy) \<in> set (stack_items (fst st)) \<or>
        snd st ! cell_index w (x + dx) (y + dy) AND 1 \<noteq> 0) \<and>
     (\<forall>x y x' y'. in_map w h x y \<longrightarrow> snd st ! cell_index w x y AND 1 \<noteq> 0 \<longrightarrow>
        in_map w h x' y' \<longrightarrow> \<bar>x' - x\<bar> \<le> 1 \<longrightarrow> \<bar>y' - y\<bar> \<le> 1 \<longrightarrow>
        snd st ! cell_index w x' y' \<noteq> 0)"

text \<open>The map after the nine stores of the seed.\<close>

definition carved :: "int \<Rightarrow> int \<Rightarrow> cells \<Rightarrow> cells" where
  "carved w h map_data =
     (let x = w div 2; y = h div 2 in
      map_data[cell_index w (x - 1) (y - 1) := 0, cell_index w x (y - 1) := 0,
               cell_index w (x + 1) (y - 1) := 0, cell_index w (x - 1) y := 0,
               cell_index w x y := 0, cell_index w (x + 1) y := 0,
               cell_index w (x - 1) (y + 1) := 0, cell_index w x (y + 1) := 0,
               cell_index w (x + 1) (y + 1) := 0])"

text \<open>The states the loop of \<open>FillMapHoles\<close> passes through.\<close>

inductive flood_run :: "int \<Rightarrow> int \<Rightarrow> cells \<Rightarrow> VisitStack \<times> cells \<Rightarrow> bool"
  for w h map_data where
  start: "flood_run w h map_data (flood_start w h)"
| iteration: "flood_run w h map_data st \<Longrightarrow> 0 < stack_size (fst st) \<Longrightarrow>
              flood_step w h map_data st = Inr st' \<Longrightarrow> flood_run w h map_data st'"

text \<open>The 160x160 map that is all wall but for the two cells \<open>(0, 0)\<close> and \<open>(1, 0)\<close>.\<close>

definition pocket_map :: cells where
  "pocket_map = (replicate 25600 1)[0 := 0, 1 := 0]"

text \<open>The 160x160 map that is all wall but for the three cells \<open>(82, 79)\<close>, \<open>(82, 80)\<close> and
  \<open>(82, 81)\<close>, the column to the right of the seed block.\<close>

definition corridor_map :: cells where
  "corridor_map = (replicate 25600 1)[12722 := 0, 12882 := 0, 13042 := 0]"

text \<open>The map holds 0 and 1 only; a cell, or a position outside the map, counts as wall
  when \<open>MAP_DATA\<close> reads other than 0 there.\<close>

definition binary_map :: "cells \<Rightarrow> bool" where
  "binary_map map_data \<longleftrightarrow> (\<forall>c \<in> set map_data. c = 0 \<or> c = 1)"

definition moore :: "XY list" where
  "moore = [(-1, -1), (0, -1), (1, -1), (-1, 0), (0, 0), (1, 0), (-1, 1), (0, 1), (1, 1)]"

definition orthogonal :: "XY list" where
  "orthogonal = [(1, 0), (0, 1), (-1, 0), (0, -1)]"

definition walls_among :: "XY list \<Rightarrow> int \<Rightarrow> int \<Rightarrow> cells \<Rightarrow> int \<Rightarrow> int \<Rightarrow> nat" where
  "walls_among ds w h map_data x y =
     length (filter (\<lambda>(dx, dy). MAP_DATA w h map_data (x + dx) (y + dy) \<noteq> 0) ds)"

definition empty_among :: "XY list \<Rightarrow> int \<Rightarrow> int \<Rightarrow> cells \<Rightarrow> int \<Rightarrow> int \<Rightarrow> nat" where
  "empty_among ds w h map_data x y =
     length (filter (\<lambda>(dx, dy). MAP_DATA w h map_data (x + dx) (y + dy) = 0) ds)"

text \<open>
  A position counts as wall when it lies outside the map or holds a cell other than 0.
  This is written out on the coordinates and the array; it does not go through the macro
  \<open>MAP_DATA\<close> of the code. The walls of a 3x3 neighbourhood are counted with it.
\<close>

definition wall_at :: "int \<Rightarrow> int \<Rightarrow> cells \<Rightarrow> int \<Rightarrow> int \<Rightarrow> bool" where
  "wall_at w h map_data x y \<longleftrightarrow>
     (if 0 \<le> x \<and> x < w \<and> 0 \<le> y \<and> y < h then map_data ! cell_index w x y \<noteq> 0 else True)"

definition wall_count :: "int \<Rightarrow> int \<Rightarrow> cells \<Rightarrow> int \<Rightarrow> int \<Rightarrow> nat" where
  "wall_count w h map_data x y =
     length (filter (\<lambda>(dx, dy). wall_at w h map_data (x + dx) (y + dy)) moore)"

text \<open>The four adjacency bits of a cell: right is bit 0, down bit 1, left bit 2, up bit 3.\<close>

definition adjacency :: "int \<Rightarrow> int \<Rightarrow> cells \<Rightarrow> int \<Rightarrow> int \<Rightarrow> int" where
  "adjacency w h map_data x y =
     (if wall_at w h map_data (x + 1) y then 1 else 0) +
     (if wall_at w h map_data x (y + 1) then 2 else 0) +
     (if wall_at w h map_data (x - 1) y then 4 else 0) +
     (if wall_at w h map_data x (y - 1) then 8 else 0)"

section \<open>The flood fill ends\<close>

lemma unmarked_update_same:
  "(v AND 1 = 0) = (xs ! j AND 1 = 0) \<Longrightarrow> unmarked (xs[j := v]) = unmarked xs"
  unfolding unmarked_def
  by (induction xs arbitrary: j) (auto split: nat.splits)

lemma unmarked_update_less:
  "j < length xs \<Longrightarrow> xs ! j AND 1 = 0 \<Longrightarrow> v AND 1 \<noteq> 0 \<Longrightarrow> unmarked (xs[j := v]) < unmarked xs"
  unfolding unmarked_def
proof (induction xs arbitrary: j)
  case Nil
  then show ?case by simp
next
  case (Cons a xs)
  show ?case
  proof (cases j)
    case 0
    with Cons.prems show ?thesis
      by (simp add: less_Suc_eq_le)
  next
    case (Suc k)
    with Cons.prems have "length (filter (\<lambda>v. v AND 1 = 0) (xs[k := v]))
        < length (filter (\<lambda>v. v AND 1 = 0) xs)"
      by (intro Cons.IH) simp_all
    with Suc show ?thesis
      by simp
  qed
qed

lemma or_2_and_1: "(v OR 2) AND 1 = v AND (1 :: 8 word)"
  by (simp add: bit.conj_disj_distrib2)

lemma unmarked_MARK: "unmarked (MARK_ACCESSIBLE_NEIGHBOR w h x y a) = unmarked a"
  by (simp add: MARK_ACCESSIBLE_NEIGHBOR_def unmarked_update_same or_2_and_1)

lemma unmarked_mark_neighbors: "unmarked (mark_neighbors w h x y a) = unmarked a"
  by (simp add: mark_neighbors_def unmarked_MARK)

lemma stack_size_Push: "stack_size (Push stack x y) = stack_size stack + 1"
  by (simp add: Push_def Let_def)

lemma stack_size_Pop: "stack_size (fst (Pop stack)) = stack_size stack - 1"
  by (simp add: Pop_def Let_def)

lemma flood_step_decreases:
  assumes "flood_step w h map_data st = Inr st'"
  shows "unmarked (snd st') < unmarked (snd st) \<or>
         unmarked (snd st') = unmarked (snd st) \<and> stack_size (fst st') = stack_size (fst st) - 1"
proof -
  obtain fill_stack a where st: "st = (fill_stack, a)"
    by (cases st)
  obtain stack1 x y where pop: "Pop fill_stack = (stack1, x, y)"
    by (cases "Pop fill_stack")
  have s1: "stack_size stack1 = stack_size fill_stack - 1"
    using stack_size_Pop [of fill_stack] pop by simp
  show ?thesis
  proof (cases "a ! nat (y * w + x) AND 1 = 0")
    case True
    with assms st pop have inb: "nat (y * w + x) < length a"
      and st': "st' = (push_neighbors w h map_data x y stack1,
                       mark_neighbors w h x y (a[nat (y * w + x) := 1]))"
      by (auto simp: flood_step_def Let_def split: if_splits)
    have "unmarked (a[nat (y * w + x) := 1]) < unmarked a"
      using inb True by (intro unmarked_update_less) simp_all
    then show ?thesis
      by (simp add: st st' unmarked_mark_neighbors)
  next
    case False
    with assms st pop have "st' = (stack1, a)"
      by (auto simp: flood_step_def Let_def split: if_splits)
    then show ?thesis
      by (simp add: st s1)
  qed
qed

termination FloodFill
proof (relation "measures [\<lambda>(w, h, m, st). unmarked (snd st), \<lambda>(w, h, m, st). nat (stack_size (fst st))]")
  fix w h :: int and map_data :: cells and st st' :: "VisitStack \<times> cells"
  assume "0 < stack_size (fst st)" and "flood_step w h map_data st = Inr st'"
  then show "((w, h, map_data, st'), (w, h, map_data, st))
      \<in> measures [\<lambda>(w, h, m, st). unmarked (snd st), \<lambda>(w, h, m, st). nat (stack_size (fst st))]"
    using flood_step_decreases [of w h map_data st st'] by auto
qed simp

termination flood_iterations
proof (relation "measures [\<lambda>(w, h, m, st). unmarked (snd st), \<lambda>(w, h, m, st). nat (stack_size (fst st))]")
  fix w h :: int and map_data :: cells and st st' :: "VisitStack \<times> cells"
  assume "0 < stack_size (fst st)" and "flood_step w h map_data st = Inr st'"
  then show "((w, h, map_data, st'), (w, h, map_data, st))
      \<in> measures [\<lambda>(w, h, m, st). unmarked (snd st), \<lambda>(w, h, m, st). nat (stack_size (fst st))]"
    using flood_step_decreases [of w h map_data st st'] by auto
qed simp

section \<open>Cells and offsets\<close>

lemma index_div_mod:
  fixes w x y :: int
  assumes "0 \<le> x" "x < w"
  shows "(y * w + x) div w = y" "(y * w + x) mod w = x"
  using assms by simp_all

lemma in_map_index_bounds:
  assumes "in_map w h x y"
  shows "0 \<le> y * w + x" "y * w + x < w * h"
proof -
  from assms have b: "0 \<le> x" "x < w" "0 \<le> y" "y \<le> h - 1"
    by (auto simp: in_map_def)
  then have "0 \<le> y * w"
    by simp
  with b show "0 \<le> y * w + x"
    by simp
  from b have "y * w \<le> (h - 1) * w"
    by (intro mult_right_mono) simp_all
  with b show "y * w + x < w * h"
    by (simp add: algebra_simps)
qed

lemma cell_index_less: "in_map w h x y \<Longrightarrow> cell_index w x y < nat (w * h)"
  using in_map_index_bounds [of w h x y] by (simp add: cell_index_def)

lemma cell_index_inj:
  assumes "in_map w h x y" "in_map w h x' y'" "cell_index w x y = cell_index w x' y'"
  shows "x = x' \<and> y = y'"
proof -
  from assms have e: "y * w + x = y' * w + x'"
    using in_map_index_bounds(1) [of w h x y] in_map_index_bounds(1) [of w h x' y']
    by (simp add: cell_index_def)
  from assms have b: "0 \<le> x" "x < w" "0 \<le> x'" "x' < w"
    by (auto simp: in_map_def)
  have "y = (y * w + x) div w" "x = (y * w + x) mod w"
    using b index_div_mod [of x w y] by simp_all
  moreover have "y' = (y' * w + x') div w" "x' = (y' * w + x') mod w"
    using b index_div_mod [of x' w y'] by simp_all
  ultimately show ?thesis
    using e by metis
qed

lemma nat_index_split:
  assumes "0 < w" "k < nat (w * h)"
  shows "in_map w h (int k mod w) (int k div w)"
    and "cell_index w (int k mod w) (int k div w) = k"
proof -
  from assms have "int k < w * h"
    by simp
  have "int k div w < h"
  proof (rule ccontr)
    assume "\<not> int k div w < h"
    then have "h * w \<le> int k div w * w"
      using assms(1) by (intro mult_right_mono) simp_all
    moreover have "int k div w * w \<le> int k"
      using div_mult_mod_eq [of "int k" w] pos_mod_sign [OF assms(1), of "int k"] by linarith
    ultimately show False
      using \<open>int k < w * h\<close> by (simp add: mult.commute)
  qed
  moreover have "0 \<le> int k div w"
    using assms(1) by (simp add: pos_imp_zdiv_nonneg_iff)
  ultimately show "in_map w h (int k mod w) (int k div w)"
    using pos_mod_sign [OF assms(1), of "int k"] pos_mod_bound [OF assms(1), of "int k"]
    by (simp add: in_map_def not_less not_le)
  show "cell_index w (int k mod w) (int k div w) = k"
    by (simp add: cell_index_def)
qed

lemma fold_row:
  assumes "0 < w"
  shows "fold (\<lambda>x. body x (int n)) (map int [0..<nat w]) st =
         fold (\<lambda>k. body (int k mod w) (int k div w)) [n * nat w ..< n * nat w + nat w] st"
proof -
  have "[n * nat w ..< n * nat w + nat w] = map (\<lambda>i. i + n * nat w) [0..<nat w]"
    by (simp add: map_add_upt add.commute)
  moreover have "fold (\<lambda>k. body (int k mod w) (int k div w)) (map (\<lambda>i. i + n * nat w) [0..<nat w]) st
      = fold (\<lambda>x. body x (int n)) (map int [0..<nat w]) st"
    unfolding fold_map
  proof (rule fold_cong [OF refl refl])
    fix i assume "i \<in> set [0..<nat w]"
    then have i: "int i < w"
      by simp
    have "int (i + n * nat w) = int n * w + int i"
      using assms by simp
    then have "int (i + n * nat w) mod w = int i" "int (i + n * nat w) div w = int n"
      using i index_div_mod [of "int i" w "int n"] by simp_all
    then show "((\<lambda>k. body (int k mod w) (int k div w)) \<circ> (\<lambda>i. i + n * nat w)) i
        = ((\<lambda>x. body x (int n)) \<circ> int) i"
      by simp
  qed
  ultimately show ?thesis
    by simp
qed

lemma fold_rows:
  assumes "0 < w"
  shows "fold (\<lambda>y. fold (\<lambda>x. body x y) (map int [0..<nat w])) (map int [0..<n]) st =
         fold (\<lambda>k. body (int k mod w) (int k div w)) [0 ..< n * nat w] st"
proof (induction n)
  case 0
  show ?case by simp
next
  case (Suc n)
  have "[0 ..< Suc n * nat w] = [0 ..< n * nat w] @ [n * nat w ..< n * nat w + nat w]"
    by (metis add.commute le_add2 mult_Suc upt_add_eq_append zero_le)
  then show ?case
    using Suc fold_row [OF assms, of body n] by simp
qed

lemma for_cells_flat:
  assumes "0 \<le> w" "0 \<le> h"
  shows "for_cells w h body st = fold (\<lambda>k. body (int k mod w) (int k div w)) [0 ..< nat (w * h)] st"
proof (cases "w = 0")
  case True
  then show ?thesis
    by (simp add: for_cells_def fold_id)
next
  case False
  with assms have w: "0 < w"
    by simp
  have "nat h * nat w = nat (w * h)"
    using assms by (simp add: nat_mult_distrib mult.commute)
  then show ?thesis
    using fold_rows [OF w, of body "nat h" st] by (simp add: for_cells_def)
qed

lemma fold_pointer:
  "fold (\<lambda>k (p, a). (p + 1, F k p a)) [m ..< n] (m, a0) =
     (max m n, fold (\<lambda>k a. F k k a) [m ..< n] a0)"
proof (induction n)
  case 0
  show ?case by simp
next
  case (Suc n)
  show ?case
  proof (cases "m \<le> n")
    case True
    then show ?thesis
      using Suc by (simp add: max_def)
  next
    case False
    then show ?thesis
      by (simp add: max_def)
  qed
qed

lemma fold_own_cell_aux:
  "length (fold (\<lambda>k a. a[k := f k (a ! k)]) [0 ..< n] a0) = length a0 \<and>
   (\<forall>j < length a0. fold (\<lambda>k a. a[k := f k (a ! k)]) [0 ..< n] a0 ! j
        = (if j < n then f j (a0 ! j) else a0 ! j))"
proof (induction n)
  case 0
  show ?case by simp
next
  case (Suc n)
  define r where "r = fold (\<lambda>k a. a[k := f k (a ! k)]) [0 ..< n] a0"
  have len: "length r = length a0"
    and old: "\<And>j. j < length a0 \<Longrightarrow> r ! j = (if j < n then f j (a0 ! j) else a0 ! j)"
    using Suc by (simp_all add: r_def)
  have new: "fold (\<lambda>k a. a[k := f k (a ! k)]) [0 ..< Suc n] a0 = r[n := f n (r ! n)]"
    by (simp add: r_def)
  show ?case
    unfolding new by (auto simp: nth_list_update len old less_Suc_eq)
qed

lemma fold_own_cell:
  shows "length (fold (\<lambda>k a. a[k := f k (a ! k)]) [0 ..< n] a0) = length a0"
    and "j < length a0 \<Longrightarrow> fold (\<lambda>k a. a[k := f k (a ! k)]) [0 ..< n] a0 ! j = (if j < n then f j (a0 ! j) else a0 ! j)"
  using fold_own_cell_aux [of f n a0] by auto

section \<open>Each pass, cell by cell\<close>

lemma for_cells_pointer:
  assumes "0 \<le> w" "0 \<le> h"
  shows "for_cells w h (\<lambda>x y (p, a). (p + 1, G x y p a)) (0 :: nat, a0) =
         (nat (w * h), fold (\<lambda>k a. G (int k mod w) (int k div w) k a) [0 ..< nat (w * h)] a0)"
  using fold_pointer [of "\<lambda>k. G (int k mod w) (int k div w)" 0 "nat (w * h)" a0]
  by (simp add: for_cells_flat [OF assms])

lemma fold_cells_cong:
  assumes "0 < w"
    and "\<And>x y a. in_map w h x y \<Longrightarrow> F x y (cell_index w x y) a = F' x y (cell_index w x y) a"
  shows "fold (\<lambda>k a. F (int k mod w) (int k div w) k a) [0 ..< nat (w * h)] a0 =
         fold (\<lambda>k a. F' (int k mod w) (int k div w) k a) [0 ..< nat (w * h)] a0"
proof (rule fold_cong [OF refl refl])
  fix k assume "k \<in> set [0 ..< nat (w * h)]"
  then have k: "k < nat (w * h)"
    by simp
  show "F (int k mod w) (int k div w) k = F' (int k mod w) (int k div w) k"
    using assms(2) [OF nat_index_split(1) [OF assms(1) k]] nat_index_split(2) [OF assms(1) k]
    by auto
qed

lemma for_cells_own_cell:
  assumes "0 \<le> w" "0 \<le> h"
    and G: "\<And>x y a. in_map w h x y \<Longrightarrow>
              G x y (cell_index w x y) a = a[cell_index w x y := g x y (a ! cell_index w x y)]"
  shows "length (snd (for_cells w h (\<lambda>x y (p, a). (p + 1, G x y p a)) (0 :: nat, a0))) = length a0"
    and "in_map w h x y \<Longrightarrow> cell_index w x y < length a0 \<Longrightarrow>
         snd (for_cells w h (\<lambda>x y (p, a). (p + 1, G x y p a)) (0 :: nat, a0)) ! cell_index w x y
           = g x y (a0 ! cell_index w x y)"
proof -
  let ?r = "snd (for_cells w h (\<lambda>x y (p, a). (p + 1, G x y p a)) (0 :: nat, a0))"
  let ?f = "\<lambda>k v. g (int k mod w) (int k div w) v"
  have r: "?r = fold (\<lambda>k a. a[k := ?f k (a ! k)]) [0 ..< nat (w * h)] a0"
  proof (cases "w = 0")
    case True
    then show ?thesis
      unfolding for_cells_pointer [OF assms(1,2)] by simp
  next
    case False
    with assms have w: "0 < w"
      by simp
    have "fold (\<lambda>k a. G (int k mod w) (int k div w) k a) [0 ..< nat (w * h)] a0 =
          fold (\<lambda>k a. (\<lambda>x y p a. a[p := g x y (a ! p)]) (int k mod w) (int k div w) k a)
            [0 ..< nat (w * h)] a0"
      by (rule fold_cells_cong [OF w]) (simp add: G)
    then show ?thesis
      unfolding for_cells_pointer [OF assms(1,2)] by simp
  qed
  show "length ?r = length a0"
    unfolding r by (rule fold_own_cell(1))
  assume xy: "in_map w h x y" and len: "cell_index w x y < length a0"
  from xy have b: "0 \<le> x" "x < w"
    by (auto simp: in_map_def)
  have k: "int (cell_index w x y) = y * w + x"
    using in_map_index_bounds(1) [OF xy] by (simp add: cell_index_def)
  have "?r ! cell_index w x y = ?f (cell_index w x y) (a0 ! cell_index w x y)"
    unfolding r using fold_own_cell(2) [OF len, of ?f "nat (w * h)"] cell_index_less [OF xy]
    by simp
  then show "?r ! cell_index w x y = g x y (a0 ! cell_index w x y)"
    using index_div_mod [OF b, of y] by (simp add: k)
qed

lemma mark_single_holes_cell:
  assumes "0 \<le> w" "0 \<le> h"
  shows "length (mark_single_holes w h m a) = length a"
    and "in_map w h x y \<Longrightarrow> cell_index w x y < length a \<Longrightarrow>
         mark_single_holes w h m a ! cell_index w x y =
           (if m ! cell_index w x y = 0 \<and> a ! cell_index w x y = 0 \<and> orthogonal_sum w h m x y = 3
            then 1 else a ! cell_index w x y)"
  unfolding mark_single_holes_def
  by (rule for_cells_own_cell [OF assms,
        where g = "\<lambda>x y v. if m ! cell_index w x y = 0 \<and> v = 0 \<and> orthogonal_sum w h m x y = 3 then 1 else v"];
      simp)+

lemma fill_inaccessible_cell:
  assumes "0 \<le> w" "0 \<le> h"
  shows "length (fill_inaccessible w h m a) = length m"
    and "in_map w h x y \<Longrightarrow> cell_index w x y < length m \<Longrightarrow>
         fill_inaccessible w h m a ! cell_index w x y =
           (if m ! cell_index w x y = 0 \<and> a ! cell_index w x y = 0 then 1 else m ! cell_index w x y)"
  unfolding fill_inaccessible_def
  by (rule for_cells_own_cell [OF assms,
        where g = "\<lambda>x y v. if v = 0 \<and> a ! cell_index w x y = 0 then 1 else v"];
      simp)+

lemma smooth_buffer_cell:
  assumes "0 \<le> w" "0 \<le> h"
  shows "length (smooth_buffer w h m b) = length b"
    and "in_map w h x y \<Longrightarrow> cell_index w x y < length b \<Longrightarrow>
         smooth_buffer w h m b ! cell_index w x y = (if neighbor_count w h m x y \<le> 4 then 0 else 1)"
  unfolding smooth_buffer_def
  by (rule for_cells_own_cell [OF assms,
        where g = "\<lambda>x y v. if neighbor_count w h m x y \<le> 4 then 0 else 1"];
      simp)+

lemma fold_own_cell_map:
  assumes "length a0 = n"
  shows "fold (\<lambda>k a. a[k := f k (a ! k)]) [0 ..< n] a0 = map (\<lambda>k. f k (a0 ! k)) [0 ..< n]"
  using assms fold_own_cell [where f = f and n = n and ?a0.0 = a0] by (intro nth_equalityI) simp_all

lemma smooth_buffer_eq:
  assumes "0 \<le> w" "0 \<le> h" "length b = nat (w * h)"
  shows "smooth_buffer w h m b =
         map (\<lambda>k. if neighbor_count w h m (int k mod w) (int k div w) \<le> 4 then 0 else 1)
           [0 ..< nat (w * h)]"
proof -
  have "smooth_buffer w h m b =
        fold (\<lambda>k a. a[k := (\<lambda>k v. if neighbor_count w h m (int k mod w) (int k div w) \<le> 4 then 0 else 1) k (a ! k)])
          [0 ..< nat (w * h)] b"
    unfolding smooth_buffer_def for_cells_pointer [OF assms(1,2)] by simp
  then show ?thesis
    using fold_own_cell_map [OF assms(3),
        of "\<lambda>k v. if neighbor_count w h m (int k mod w) (int k div w) \<le> 4 then 0 else 1"]
    by simp
qed

lemma fold_rand_cells:
  "fold (\<lambda>k (m, r). let (v, r1) = rand r in (m[k := c v], r1)) [0 ..< n] (m0, r0) =
     (fold (\<lambda>k m. m[k := (\<lambda>k v. c (draws r0 (drawn r0 + k))) k (m ! k)]) [0 ..< n] m0,
      r0\<lparr>drawn := drawn r0 + n\<rparr>)"
  by (induction n) (simp_all add: rand_def)

lemma GenerateRandomMapCells_eq:
  assumes "0 \<le> w" "0 \<le> h" "length m0 = nat (w * h)"
  shows "GenerateRandomMapCells below w h (m0, r0) =
         (map (\<lambda>k. if below (draws r0 (drawn r0 + k)) then 1 else 0) [0 ..< nat (w * h)],
          r0\<lparr>drawn := drawn r0 + nat (w * h)\<rparr>)"
proof (cases "w = 0")
  case True
  with assms show ?thesis
    by (simp add: GenerateRandomMapCells_def for_cells_flat)
next
  case False
  with assms have w: "0 < w"
    by simp
  have "GenerateRandomMapCells below w h (m0, r0) =
        fold (\<lambda>k (m, r). let (v, r1) = rand r in (m[k := (if below v then 1 else 0)], r1))
          [0 ..< nat (w * h)] (m0, r0)"
    unfolding GenerateRandomMapCells_def for_cells_flat [OF assms(1,2)]
  proof (rule fold_cong [OF refl refl])
    fix k assume "k \<in> set [0 ..< nat (w * h)]"
    then have "cell_index w (int k mod w) (int k div w) = k"
      using nat_index_split(2) [OF w, of k h] by simp
    then show "(\<lambda>(m, r). let (v, r1) = rand r
            in (m[cell_index w (int k mod w) (int k div w) := (if below v then 1 else 0)], r1)) =
        (\<lambda>(m, r). let (v, r1) = rand r in (m[k := (if below v then 1 else 0)], r1))"
      by simp
  qed
  then show ?thesis
    unfolding fold_rand_cells
    using fold_own_cell_map [OF assms(3),
        of "\<lambda>k v. if below (draws r0 (drawn r0 + k)) then 1 else 0"]
    by simp
qed

lemma empties_before_Suc:
  "n < length m \<Longrightarrow> empties_before m (Suc n) = empties_before m n + (if m ! n = 0 then 1 else 0)"
  by (simp add: empties_before_def take_Suc_conv_app_nth)

lemma fold_tiles:
  assumes "n \<le> length m"
  shows "fold (\<lambda>k (tiles, r).
            if m ! k \<noteq> 0 then (tiles @ [W], r)
            else let (v, r1) = rand r in (tiles @ [e k v], r1)) [0 ..< n] ([], r0) =
         (map (\<lambda>k. if m ! k \<noteq> 0 then W else e k (draws r0 (drawn r0 + empties_before m k))) [0 ..< n],
          r0\<lparr>drawn := drawn r0 + empties_before m n\<rparr>)"
  using assms
proof (induction n)
  case 0
  show ?case
    by (simp add: empties_before_def)
next
  case (Suc n)
  then show ?case
    by (simp add: rand_def empties_before_Suc)
qed

lemma GenerateMapPixels_eq:
  assumes "0 \<le> w" "0 \<le> h" "length m = nat (w * h)"
  shows "GenerateMapPixels w h m r0 =
         (map (\<lambda>k. if m ! k \<noteq> 0 then WALL_TILE_INDEX
                    else empty_tile_index w h m (int k mod w) (int k div w)
                           (draws r0 (drawn r0 + empties_before m k))) [0 ..< nat (w * h)],
          r0\<lparr>drawn := drawn r0 + empties_before m (nat (w * h))\<rparr>)"
proof (cases "w = 0")
  case True
  with assms show ?thesis
    by (simp add: GenerateMapPixels_def for_cells_flat empties_before_def)
next
  case False
  with assms have w: "0 < w"
    by simp
  have "GenerateMapPixels w h m r0 =
        fold (\<lambda>k (tiles, r).
            if m ! k \<noteq> 0 then (tiles @ [WALL_TILE_INDEX], r)
            else let (v, r1) = rand r
                 in (tiles @ [(\<lambda>k. empty_tile_index w h m (int k mod w) (int k div w)) k v], r1))
          [0 ..< nat (w * h)] ([], r0)"
    unfolding GenerateMapPixels_def for_cells_flat [OF assms(1,2)]
  proof (rule fold_cong [OF refl refl])
    fix k assume "k \<in> set [0 ..< nat (w * h)]"
    then have "cell_index w (int k mod w) (int k div w) = k"
      using nat_index_split(2) [OF w, of k h] by simp
    then show "(\<lambda>(tiles, r).
            if m ! cell_index w (int k mod w) (int k div w) \<noteq> 0 then (tiles @ [WALL_TILE_INDEX], r)
            else let (v, r1) = rand r
                 in (tiles @ [empty_tile_index w h m (int k mod w) (int k div w) v], r1)) =
        (\<lambda>(tiles, r).
            if m ! k \<noteq> 0 then (tiles @ [WALL_TILE_INDEX], r)
            else let (v, r1) = rand r
                 in (tiles @ [(\<lambda>k. empty_tile_index w h m (int k mod w) (int k div w)) k v], r1))"
      by simp
  qed
  then show ?thesis
    using fold_tiles [of "nat (w * h)" m WALL_TILE_INDEX
        "\<lambda>k. empty_tile_index w h m (int k mod w) (int k div w)" r0] assms(3)
    by simp
qed

subsection \<open>The stack as a sequence\<close>

lemma empty_stack_ok: "stack_ok empty_stack" "stack_items empty_stack = []"
  by (simp_all add: stack_ok_def stack_items_def empty_stack_def)

lemma Push_items:
  assumes "stack_ok stack"
  shows "stack_ok (Push stack x y)"
    and "stack_items (Push stack x y) = stack_items stack @ [(x, y)]"
proof -
  let ?n = "nat (stack_size stack)"
  show "stack_ok (Push stack x y)"
    using assms by (auto simp: stack_ok_def Push_def Let_def realloc_def Suc_le_eq)
  show "stack_items (Push stack x y) = stack_items stack @ [(x, y)]"
  proof (cases "stack_size stack \<ge> stack_capacity stack")
    case True
    with assms have full: "?n = length (stack_s stack)"
      by (simp add: stack_ok_def)
    define cap where "cap = (if stack_capacity stack = 0 then 16 else stack_capacity stack * 2)"
    have "int (length (stack_s stack)) < cap"
      using assms True by (auto simp: stack_ok_def cap_def)
    then have room: "length (stack_s stack) < nat cap"
      by linarith
    have "realloc (stack_s stack) cap =
          stack_s stack @ replicate (nat cap - length (stack_s stack)) (0, 0)"
      using room by (simp add: realloc_def)
    moreover obtain k where "nat cap - length (stack_s stack) = Suc k"
      using room by (cases "nat cap - length (stack_s stack)") simp_all
    ultimately have "take (Suc ?n) ((realloc (stack_s stack) cap)[?n := (x, y)]) =
        stack_s stack @ [(x, y)]"
      using full by (simp add: list_update_append)
    moreover have "stack_s (Push stack x y) = (realloc (stack_s stack) cap)[?n := (x, y)]"
      using True by (simp add: Push_def Let_def cap_def)
    moreover have "nat (stack_size (Push stack x y)) = Suc ?n"
      using assms by (simp add: stack_size_Push stack_ok_def nat_add_distrib)
    ultimately show ?thesis
      using full by (simp add: stack_items_def)
  next
    case False
    with assms have "?n < length (stack_s stack)"
      unfolding stack_ok_def by linarith
    then have "take (Suc ?n) ((stack_s stack)[?n := (x, y)]) = take ?n (stack_s stack) @ [(x, y)]"
      by (simp add: take_Suc_conv_app_nth)
    then show ?thesis
      using False assms by (simp add: stack_items_def Push_def Let_def nat_add_distrib stack_ok_def)
  qed
qed

lemma Pop_items:
  assumes "stack_ok stack" "0 < stack_size stack" "Pop stack = (stack1, x, y)"
  shows "stack_ok stack1"
    and "stack_items stack = stack_items stack1 @ [(x, y)]"
proof -
  from assms(3) have s1: "stack1 = stack\<lparr>stack_size := stack_size stack - 1\<rparr>"
    and xy: "(x, y) = stack_s stack ! nat (stack_size stack - 1)"
    by (auto simp: Pop_def Let_def)
  show "stack_ok stack1"
    using assms(1,2) by (simp add: s1 stack_ok_def)
  have "nat (stack_size stack - 1) < length (stack_s stack)"
    and "nat (stack_size stack) = Suc (nat (stack_size stack - 1))"
    using assms(1,2) by (auto simp: stack_ok_def)
  then show "stack_items stack = stack_items stack1 @ [(x, y)]"
    by (simp add: stack_items_def s1 xy take_Suc_conv_app_nth)
qed

lemma stack_items_empty: "stack_ok stack \<Longrightarrow> stack_size stack \<le> 0 \<Longrightarrow> stack_items stack = []"
  by (simp add: stack_ok_def stack_items_def)

lemma fold_Push_items:
  assumes "stack_ok stack"
  shows "stack_ok (fold (\<lambda>(dx, dy) stack.
             if P (x + dx) (y + dy) then Push stack (x + dx) (y + dy) else stack) ds stack)"
    and "stack_items (fold (\<lambda>(dx, dy) stack.
             if P (x + dx) (y + dy) then Push stack (x + dx) (y + dy) else stack) ds stack) =
         stack_items stack @ filter (\<lambda>(x', y'). P x' y') (map (\<lambda>(dx, dy). (x + dx, y + dy)) ds)"
  using assms by (induction ds arbitrary: stack) (auto simp: Push_items)

lemma push_neighbors_items:
  assumes "stack_ok stack"
  shows "stack_ok (push_neighbors w h m x y stack)"
    and "stack_items (push_neighbors w h m x y stack) =
         stack_items stack @
         filter (\<lambda>(x', y'). space_3x3 w h m x' y') (map (\<lambda>(dx, dy). (x + dx, y + dy)) offsets)"
  unfolding push_neighbors_def using fold_Push_items [OF assms] by auto

subsection \<open>The marks, cell by cell\<close>

lemma or_2_idem: "(v OR 2) OR 2 = v OR (2 :: 8 word)"
  by (simp add: or.assoc)

lemma MARK_nth:
  "length (MARK_ACCESSIBLE_NEIGHBOR w h x y a) = length a"
  "MARK_ACCESSIBLE_NEIGHBOR w h x y a ! j =
     (if in_map w h x y \<and> j = cell_index w x y \<and> j < length a then a ! j OR 2 else a ! j)"
  by (auto simp: MARK_ACCESSIBLE_NEIGHBOR_def in_map_def nth_list_update list_update_beyond not_less)

lemma fold_MARK_nth:
  "length (fold (\<lambda>(dx, dy). MARK_ACCESSIBLE_NEIGHBOR w h (x + dx) (y + dy)) ds a) = length a"
  "fold (\<lambda>(dx, dy). MARK_ACCESSIBLE_NEIGHBOR w h (x + dx) (y + dy)) ds a ! j =
     (if j < length a \<and>
         (\<exists>(dx, dy) \<in> set ds. in_map w h (x + dx) (y + dy) \<and> j = cell_index w (x + dx) (y + dy))
      then a ! j OR 2 else a ! j)"
proof (induction ds arbitrary: a)
  case Nil
  {
    case 1
    show ?case by simp
  next
    case 2
    show ?case by simp
  }
next
  case (Cons d ds)
  {
    case 1
    show ?case
      by (cases d) (simp add: Cons.IH(1) MARK_nth(1))
  next
    case 2
    show ?case
      by (cases d) (auto simp: Cons.IH MARK_nth or_2_idem)
  }
qed

lemma for_cells_none: "w \<le> 0 \<or> h \<le> 0 \<Longrightarrow> for_cells w h body st = st"
  by (auto simp: for_cells_def fold_id)

lemma for_cells_own_cell_flat:
  assumes "0 \<le> w" "0 \<le> h"
    and G: "\<And>x y a. in_map w h x y \<Longrightarrow>
              G x y (cell_index w x y) a = a[cell_index w x y := g x y (a ! cell_index w x y)]"
  shows "snd (for_cells w h (\<lambda>x y (p, a). (p + 1, G x y p a)) (0 :: nat, a0)) =
         fold (\<lambda>k a. a[k := g (int k mod w) (int k div w) (a ! k)]) [0 ..< nat (w * h)] a0"
proof (cases "w = 0")
  case True
  then show ?thesis
    unfolding for_cells_pointer [OF assms(1,2)] by simp
next
  case False
  with assms have w: "0 < w"
    by simp
  have "fold (\<lambda>k a. G (int k mod w) (int k div w) k a) [0 ..< nat (w * h)] a0 =
        fold (\<lambda>k a. (\<lambda>x y p a. a[p := g x y (a ! p)]) (int k mod w) (int k div w) k a)
          [0 ..< nat (w * h)] a0"
    by (rule fold_cells_cong [OF w]) (simp add: G)
  then show ?thesis
    unfolding for_cells_pointer [OF assms(1,2)] by simp
qed

lemma fill_inaccessible_flat:
  assumes "0 \<le> w" "0 \<le> h"
  shows "fill_inaccessible w h m a =
         fold (\<lambda>k m. m[k := (\<lambda>k v. if v = 0 \<and> a ! k = 0 then 1 else v) k (m ! k)])
           [0 ..< nat (w * h)] m"
proof -
  have "fill_inaccessible w h m a =
        fold (\<lambda>k m. m[k := (\<lambda>x y v. if v = 0 \<and> a ! cell_index w x y = 0 then 1 else v)
                              (int k mod w) (int k div w) (m ! k)])
          [0 ..< nat (w * h)] m"
    unfolding fill_inaccessible_def
    by (rule for_cells_own_cell_flat [OF assms]) simp
  also have "\<dots> = fold (\<lambda>k m. m[k := (\<lambda>k v. if v = 0 \<and> a ! k = 0 then 1 else v) k (m ! k)])
           [0 ..< nat (w * h)] m"
  proof (cases "w = 0")
    case True
    then show ?thesis by simp
  next
    case False
    with assms have w: "0 < w"
      by simp
    show ?thesis
    proof (rule fold_cong [OF refl refl])
      fix k assume "k \<in> set [0 ..< nat (w * h)]"
      then have "cell_index w (int k mod w) (int k div w) = k"
        using nat_index_split(2) [OF w, of k h] by simp
      then show "(\<lambda>m. m[k := (\<lambda>x y v. if v = 0 \<and> a ! cell_index w x y = 0 then 1 else v)
                              (int k mod w) (int k div w) (m ! k)]) =
            (\<lambda>m. m[k := (\<lambda>k v. if v = 0 \<and> a ! k = 0 then 1 else v) k (m ! k)])"
        by simp
    qed
  qed
  finally show ?thesis .
qed

section \<open>The last pass\<close>

subsection \<open>C8: sealing twice is sealing once\<close>

text \<open>
  C8. For every map and every \<open>accessible_spots\<close>, the last pass of \<open>FillMapHoles\<close> (every
  empty cell whose mark is 0 becomes wall), run a second time on its own result with the
  same marks, returns that result unchanged.
\<close>

theorem fill_inaccessible_idempotent:
  "fill_inaccessible w h (fill_inaccessible w h map_data accessible_spots) accessible_spots =
   fill_inaccessible w h map_data accessible_spots"
proof (cases "0 \<le> w \<and> 0 \<le> h")
  case False
  then have "w \<le> 0 \<or> h \<le> 0"
    by auto
  then show ?thesis
    by (simp add: fill_inaccessible_def for_cells_none)
next
  case True
  let ?f = "\<lambda>k v. if v = 0 \<and> accessible_spots ! k = 0 then (1 :: 8 word) else v"
  let ?m1 = "fill_inaccessible w h map_data accessible_spots"
  have flat: "\<And>m. fill_inaccessible w h m accessible_spots =
      fold (\<lambda>k m. m[k := ?f k (m ! k)]) [0 ..< nat (w * h)] m"
    using fill_inaccessible_flat True by simp
  have len: "\<And>m. length (fill_inaccessible w h m accessible_spots) = length m"
    using fill_inaccessible_cell(1) True by simp
  show ?thesis
  proof (rule nth_equalityI)
    show "length (fill_inaccessible w h ?m1 accessible_spots) = length ?m1"
      by (rule len)
    fix j assume "j < length (fill_inaccessible w h ?m1 accessible_spots)"
    then have j: "j < length map_data"
      by (simp add: len)
    have "?m1 ! j = (if j < nat (w * h) then ?f j (map_data ! j) else map_data ! j)"
      unfolding flat by (rule fold_own_cell(2) [OF j])
    moreover have "fill_inaccessible w h ?m1 accessible_spots ! j =
        (if j < nat (w * h) then ?f j (?m1 ! j) else ?m1 ! j)"
      using fold_own_cell(2) [of j ?m1 ?f "nat (w * h)"] j len flat by simp
    ultimately show "fill_inaccessible w h ?m1 accessible_spots ! j = ?m1 ! j"
      by simp
  qed
qed

section \<open>What the flood fill marks\<close>

lemma interior_in_map: "interior w h x y \<Longrightarrow> in_map w h x y"
  by (auto simp: interior_def in_map_def)

lemma MAP_DATA_0_in_map: "MAP_DATA w h m x y = 0 \<Longrightarrow> in_map w h x y"
  by (auto simp: MAP_DATA_def in_map_def split: if_splits)

lemma space_3x3_interior:
  assumes "space_3x3 w h m x y"
  shows "interior w h x y"
proof -
  from assms have "in_map w h (x - 1) (y - 1)" "in_map w h (x + 1) (y + 1)"
    by (auto simp: space_3x3_def intro: MAP_DATA_0_in_map)
  then show ?thesis
    by (auto simp: interior_def in_map_def)
qed

lemma centre_interior: "3 \<le> w \<Longrightarrow> 3 \<le> h \<Longrightarrow> interior w h (w div 2) (h div 2)"
  by (auto simp: interior_def)

lemma thick_reachable_interior:
  assumes "3 \<le> w" "3 \<le> h" "thick_reachable w h m x y"
  shows "interior w h x y"
  using assms(3)
  by (induction rule: thick_reachable.induct)
     (simp_all add: centre_interior [OF assms(1,2)] space_3x3_interior)

lemma abs_le_1_iff: "\<bar>d\<bar> \<le> 1 \<longleftrightarrow> d = -1 \<or> d = 0 \<or> d = (1 :: int)"
  by arith

lemma offsets_iff: "(dx, dy) \<in> set offsets \<longleftrightarrow> (dx, dy) \<noteq> (0, 0) \<and> \<bar>dx\<bar> \<le> 1 \<and> \<bar>dy\<bar> \<le> 1"
  unfolding abs_le_1_iff by (auto simp: offsets_def)

lemma neighbors_iff:
  "(dx, dy) \<in> set [(1, 0), (1, 1), (0, 1), (-1, 1), (-1, 0), (-1, -1), (0, -1), (1, -1 :: int)]
     \<longleftrightarrow> (dx, dy) \<noteq> (0 :: int, 0) \<and> \<bar>dx\<bar> \<le> 1 \<and> \<bar>dy\<bar> \<le> 1"
  unfolding abs_le_1_iff by auto

lemma marked_cell:
  assumes xy: "in_map w h x y" and xy': "in_map w h x' y'" and len: "length a = nat (w * h)"
  shows "mark_neighbors w h x y (a[cell_index w x y := 1]) ! cell_index w x' y' =
         (if (x', y') = (x, y) then 1
          else if \<bar>x' - x\<bar> \<le> 1 \<and> \<bar>y' - y\<bar> \<le> 1 then a ! cell_index w x' y' OR 2
          else a ! cell_index w x' y')"
proof -
  define ns :: "(int \<times> int) list" where "ns = [(1, 0), (1, 1), (0, 1), (-1, 1), (-1, 0), (-1, -1), (0, -1), (1, -1 :: int)]"
  define b where "b = a[cell_index w x y := 1]"
  define j where "j = cell_index w x' y'"
  have j: "j < length b" "j < length a"
    using cell_index_less [OF xy'] len by (simp_all add: b_def j_def)
  have same: "j = cell_index w x y \<longleftrightarrow> (x', y') = (x, y)"
    using cell_index_inj [OF xy' xy] by (auto simp: j_def)
  have ex: "(\<exists>(dx, dy) \<in> set ns. in_map w h (x + dx) (y + dy) \<and>
            j = cell_index w (x + dx) (y + dy)) \<longleftrightarrow>
        (x' - x, y' - y) \<in> set ns"
  proof
    assume "\<exists>(dx, dy) \<in> set ns. in_map w h (x + dx) (y + dy) \<and>
            j = cell_index w (x + dx) (y + dy)"
    then obtain dx dy where d: "(dx, dy) \<in> set ns" "in_map w h (x + dx) (y + dy)"
        "cell_index w x' y' = cell_index w (x + dx) (y + dy)"
      unfolding j_def by blast
    from cell_index_inj [OF xy' d(2,3)] have "dx = x' - x" "dy = y' - y"
      by simp_all
    with d(1) show "(x' - x, y' - y) \<in> set ns"
      by simp
  next
    assume "(x' - x, y' - y) \<in> set ns"
    moreover have "in_map w h (x + (x' - x)) (y + (y' - y))"
      using xy' by simp
    moreover have "j = cell_index w (x + (x' - x)) (y + (y' - y))"
      by (simp add: j_def)
    ultimately show "\<exists>(dx, dy) \<in> set ns. in_map w h (x + dx) (y + dy) \<and>
            j = cell_index w (x + dx) (y + dy)"
      by blast
  qed
  have mem: "(x' - x, y' - y) \<in> set ns \<longleftrightarrow> (x', y') \<noteq> (x, y) \<and> \<bar>x' - x\<bar> \<le> 1 \<and> \<bar>y' - y\<bar> \<le> 1"
    unfolding ns_def neighbors_iff by auto
  have "mark_neighbors w h x y b ! j =
      (if j < length b \<and>
          (\<exists>(dx, dy) \<in> set ns. in_map w h (x + dx) (y + dy) \<and> j = cell_index w (x + dx) (y + dy))
       then b ! j OR 2 else b ! j)"
    unfolding mark_neighbors_def ns_def by (rule fold_MARK_nth(2))
  then have m: "mark_neighbors w h x y b ! j =
      (if (x', y') \<noteq> (x, y) \<and> \<bar>x' - x\<bar> \<le> 1 \<and> \<bar>y' - y\<bar> \<le> 1 then b ! j OR 2 else b ! j)"
    unfolding ex mem using j(1) by (simp only: simp_thms)
  have bj: "b ! j = (if (x', y') = (x, y) then 1 else a ! j)"
    unfolding b_def using j(2) same by (auto simp: nth_list_update)
  show ?thesis
    unfolding b_def [symmetric] j_def [symmetric] m bj
    by (cases "(x', y') = (x, y)") (simp_all only: simp_thms if_True if_False)
qed

lemma length_mark_neighbors: "length (mark_neighbors w h x y a) = length a"
  unfolding mark_neighbors_def by (rule fold_MARK_nth(1))

lemma or_2_nonzero: "v OR 2 \<noteq> (0 :: 8 word)"
  by (simp add: or_eq_0_iff)

lemma marked_cell_bit:
  assumes "in_map w h x y" "in_map w h x' y'" "length a = nat (w * h)"
  shows "mark_neighbors w h x y (a[cell_index w x y := 1]) ! cell_index w x' y' AND 1 \<noteq> 0 \<longleftrightarrow>
         (x', y') = (x, y) \<or> a ! cell_index w x' y' AND 1 \<noteq> 0"
  unfolding marked_cell [OF assms] by (auto simp: or_2_and_1)

lemma marked_cell_nonzero:
  assumes "in_map w h x y" "in_map w h x' y'" "length a = nat (w * h)"
  shows "mark_neighbors w h x y (a[cell_index w x y := 1]) ! cell_index w x' y' \<noteq> 0 \<longleftrightarrow>
         \<bar>x' - x\<bar> \<le> 1 \<and> \<bar>y' - y\<bar> \<le> 1 \<or> a ! cell_index w x' y' \<noteq> 0"
  unfolding marked_cell [OF assms] by (auto simp: or_2_nonzero)

lemma flood_step_in_map:
  assumes "Pop stack = (stack1, x, y)" "in_map w h x y" "length a = nat (w * h)"
  shows "flood_step w h m (stack, a) =
         (if a ! cell_index w x y AND 1 \<noteq> 0 then Inr (stack1, a)
          else Inr (push_neighbors w h m x y stack1,
                    mark_neighbors w h x y (a[cell_index w x y := 1])))"
proof -
  have "0 \<le> y * w + x" "y * w + x < int (length a)"
    using in_map_index_bounds [OF assms(2)] assms(3) by simp_all
  then show ?thesis
    using assms(1) by (simp add: flood_step_def cell_index_def)
qed

declare FloodFill.simps [simp del]

lemma FloodFill_rule:
  assumes "I st"
    and "\<And>st. I st \<Longrightarrow> 0 < stack_size (fst st) \<Longrightarrow> \<exists>st'. flood_step w h m st = Inr st' \<and> I st'"
  shows "\<exists>a stack. FloodFill w h m st = Inr a \<and> I (stack, a) \<and> stack_size stack \<le> 0"
  using assms
proof (induction w h m st rule: FloodFill.induct)
  case (1 w h m st)
  show ?case
  proof (cases "0 < stack_size (fst st)")
    case True
    from "1.prems"(2) [OF "1.prems"(1) True] obtain st'
      where st': "flood_step w h m st = Inr st'" "I st'"
      by blast
    from "1.IH" [OF True st'(1) st'(2) "1.prems"(2)]
    obtain a stack where "FloodFill w h m st' = Inr a" "I (stack, a)" "stack_size stack \<le> 0"
      by blast
    then show ?thesis
      using True st'(1) by (subst FloodFill.simps) auto
  next
    case False
    then have "FloodFill w h m st = Inr (snd st)"
      by (subst FloodFill.simps) simp
    moreover have "I (fst st, snd st)"
      using "1.prems"(1) by simp
    ultimately show ?thesis
      using False by (intro exI [of _ "snd st"] exI [of _ "fst st"]) simp
  qed
qed

lemma flood_inv_start:
  assumes "3 \<le> w" "3 \<le> h"
  shows "flood_inv w h m (flood_start w h)"
proof -
  have z: "\<And>x y. in_map w h x y \<Longrightarrow> replicate (nat (w * h)) (0 :: 8 word) ! cell_index w x y = 0"
    using cell_index_less by simp
  have "stack_ok (Push empty_stack (w div 2) (h div 2))"
    and "stack_items (Push empty_stack (w div 2) (h div 2)) = [(w div 2, h div 2)]"
    using Push_items [OF empty_stack_ok(1)] by (simp_all add: empty_stack_ok(2))
  then show ?thesis
    unfolding flood_inv_def flood_start_def
    by (simp add: z thick_reachable.centre)
qed

text \<open>
  An iteration keeps the invariant. Of the table \<open>offsets\<close> the proof uses only that it
  holds the eight cells around the origin and no other; the lemmas whose names end in
  \<open>_table\<close> take this as a premise, and the theorems on what \<open>FillMapHoles\<close> leaves check
  the table of the code against it in their own proofs.
\<close>

lemma flood_inv_step_table:
  assumes table: "\<And>dx dy. (dx, dy) \<in> set offsets \<longleftrightarrow>
      (dx, dy) \<noteq> (0, 0) \<and> \<bar>dx\<bar> \<le> 1 \<and> \<bar>dy\<bar> \<le> 1"
    and wh: "3 \<le> w" "3 \<le> h"
    and inv: "flood_inv w h m st" and size: "0 < stack_size (fst st)"
  shows "\<exists>st'. flood_step w h m st = Inr st' \<and> flood_inv w h m st'"
proof -
  obtain stack a where st: "st = (stack, a)"
    by (cases st)
  obtain stack1 x y where pop: "Pop stack = (stack1, x, y)"
    by (cases "Pop stack") auto
  from inv have ok: "stack_ok stack" and len: "length a = nat (w * h)"
    and I3: "\<And>x y. (x, y) \<in> set (stack_items stack) \<Longrightarrow> thick_reachable w h m x y"
    and I4: "\<And>x y. in_map w h x y \<Longrightarrow> a ! cell_index w x y AND 1 \<noteq> 0 \<Longrightarrow> thick_reachable w h m x y"
    and I5: "\<And>x y. in_map w h x y \<Longrightarrow> a ! cell_index w x y \<noteq> 0 \<Longrightarrow> brushed w h m x y"
    and I6: "(w div 2, h div 2) \<in> set (stack_items stack) \<or>
             a ! cell_index w (w div 2) (h div 2) AND 1 \<noteq> 0"
    and I7: "\<And>x y dx dy. in_map w h x y \<Longrightarrow> a ! cell_index w x y AND 1 \<noteq> 0 \<Longrightarrow>
        (dx, dy) \<in> set offsets \<Longrightarrow> space_3x3 w h m (x + dx) (y + dy) \<Longrightarrow>
        (x + dx, y + dy) \<in> set (stack_items stack) \<or> a ! cell_index w (x + dx) (y + dy) AND 1 \<noteq> 0"
    and I8: "\<And>x y x' y'. in_map w h x y \<Longrightarrow> a ! cell_index w x y AND 1 \<noteq> 0 \<Longrightarrow>
        in_map w h x' y' \<Longrightarrow> \<bar>x' - x\<bar> \<le> 1 \<Longrightarrow> \<bar>y' - y\<bar> \<le> 1 \<Longrightarrow> a ! cell_index w x' y' \<noteq> 0"
    unfolding flood_inv_def st by simp_all
  from size have size': "0 < stack_size stack"
    by (simp add: st)
  note items = Pop_items [OF ok size' pop]
  have mem: "\<And>c. c \<in> set (stack_items stack) \<longleftrightarrow> c \<in> set (stack_items stack1) \<or> c = (x, y)"
    by (auto simp: items(2))
  have rxy: "thick_reachable w h m x y"
    by (rule I3) (simp add: mem)
  have xy: "in_map w h x y"
    by (rule interior_in_map [OF thick_reachable_interior [OF wh rxy]])
  have centre: "in_map w h (w div 2) (h div 2)"
    by (rule interior_in_map [OF centre_interior [OF wh]])
  note step = flood_step_in_map [OF pop xy len, of m]
  show ?thesis
  proof (cases "a ! cell_index w x y AND 1 \<noteq> 0")
    case True
    have "flood_inv w h m (stack1, a)"
      unfolding flood_inv_def fst_conv snd_conv
    proof (intro conjI allI impI)
      show "stack_ok stack1" by (rule items(1))
      show "length a = nat (w * h)" by (rule len)
      show "thick_reachable w h m x' y'" if "(x', y') \<in> set (stack_items stack1)" for x' y'
        using that by (intro I3) (simp add: mem)
      show "thick_reachable w h m x' y'"
        if "in_map w h x' y'" "a ! cell_index w x' y' AND 1 \<noteq> 0" for x' y'
        using that by (rule I4)
      show "brushed w h m x' y'" if "in_map w h x' y'" "a ! cell_index w x' y' \<noteq> 0" for x' y'
        using that by (rule I5)
      show "(w div 2, h div 2) \<in> set (stack_items stack1) \<or>
            a ! cell_index w (w div 2) (h div 2) AND 1 \<noteq> 0"
        using I6 True by (auto simp: mem)
      show "(x' + dx, y' + dy) \<in> set (stack_items stack1) \<or>
            a ! cell_index w (x' + dx) (y' + dy) AND 1 \<noteq> 0"
        if "in_map w h x' y'" "a ! cell_index w x' y' AND 1 \<noteq> 0" "(dx, dy) \<in> set offsets"
          "space_3x3 w h m (x' + dx) (y' + dy)" for x' y' dx dy
        using I7 [OF that] True by (auto simp: mem)
      show "a ! cell_index w x'' y'' \<noteq> 0"
        if "in_map w h x' y'" "a ! cell_index w x' y' AND 1 \<noteq> 0" "in_map w h x'' y''"
          "\<bar>x'' - x'\<bar> \<le> 1" "\<bar>y'' - y'\<bar> \<le> 1" for x' y' x'' y''
        using that by (rule I8)
    qed
    then show ?thesis
      using True by (simp add: st step)
  next
    case False
    define a' where "a' = mark_neighbors w h x y (a[cell_index w x y := 1])"
    define stack' where "stack' = push_neighbors w h m x y stack1"
    have bit: "\<And>x' y'. in_map w h x' y' \<Longrightarrow>
        a' ! cell_index w x' y' AND 1 \<noteq> 0 \<longleftrightarrow> (x', y') = (x, y) \<or> a ! cell_index w x' y' AND 1 \<noteq> 0"
      unfolding a'_def by (rule marked_cell_bit [OF xy _ len])
    have nz: "\<And>x' y'. in_map w h x' y' \<Longrightarrow>
        a' ! cell_index w x' y' \<noteq> 0 \<longleftrightarrow>
          \<bar>x' - x\<bar> \<le> 1 \<and> \<bar>y' - y\<bar> \<le> 1 \<or> a ! cell_index w x' y' \<noteq> 0"
      unfolding a'_def by (rule marked_cell_nonzero [OF xy _ len])
    have mem': "\<And>c. c \<in> set (stack_items stack') \<longleftrightarrow>
        c \<in> set (stack_items stack1) \<or>
        (\<exists>dx dy. (dx, dy) \<in> set offsets \<and> c = (x + dx, y + dy) \<and> space_3x3 w h m (x + dx) (y + dy))"
      unfolding stack'_def push_neighbors_items(2) [OF items(1)] by auto
    have "flood_inv w h m (stack', a')"
      unfolding flood_inv_def fst_conv snd_conv
    proof (intro conjI allI impI)
      show "stack_ok stack'"
        unfolding stack'_def by (rule push_neighbors_items(1) [OF items(1)])
      show "length a' = nat (w * h)"
        by (simp add: a'_def length_mark_neighbors len)
      show "thick_reachable w h m x' y'" if "(x', y') \<in> set (stack_items stack')" for x' y'
        using that unfolding mem'
      proof
        assume "(x', y') \<in> set (stack_items stack1)"
        then show ?thesis
          by (intro I3) (simp add: mem)
      next
        assume "\<exists>dx dy. (dx, dy) \<in> set offsets \<and> (x', y') = (x + dx, y + dy) \<and>
                  space_3x3 w h m (x + dx) (y + dy)"
        then obtain dx dy where d: "(dx, dy) \<in> set offsets" "(x', y') = (x + dx, y + dy)"
            "space_3x3 w h m (x + dx) (y + dy)"
          by blast
        from d(1) have "(x + dx, y + dy) \<noteq> (x, y)" "\<bar>x + dx - x\<bar> \<le> 1" "\<bar>y + dy - y\<bar> \<le> 1"
          unfolding table by auto
        from thick_reachable.step [OF rxy this d(3)] d(2) show ?thesis
          by simp
      qed
      show "thick_reachable w h m x' y'"
        if "in_map w h x' y'" "a' ! cell_index w x' y' AND 1 \<noteq> 0" for x' y'
        using that rxy I4 by (auto simp: bit)
      show "brushed w h m x' y'" if "in_map w h x' y'" "a' ! cell_index w x' y' \<noteq> 0" for x' y'
      proof (cases "\<bar>x' - x\<bar> \<le> 1 \<and> \<bar>y' - y\<bar> \<le> 1")
        case True
        with rxy show ?thesis
          unfolding brushed_def by blast
      next
        case False
        with that show ?thesis
          by (intro I5) (simp_all add: nz)
      qed
      show "(w div 2, h div 2) \<in> set (stack_items stack') \<or>
            a' ! cell_index w (w div 2) (h div 2) AND 1 \<noteq> 0"
        using I6 unfolding mem mem' bit [OF centre] by blast
      show "(x' + dx, y' + dy) \<in> set (stack_items stack') \<or>
            a' ! cell_index w (x' + dx) (y' + dy) AND 1 \<noteq> 0"
        if "in_map w h x' y'" "a' ! cell_index w x' y' AND 1 \<noteq> 0" "(dx, dy) \<in> set offsets"
          and sp: "space_3x3 w h m (x' + dx) (y' + dy)" for x' y' dx dy
      proof -
        have inb: "in_map w h (x' + dx) (y' + dy)"
          by (rule interior_in_map [OF space_3x3_interior [OF sp]])
        show ?thesis
        proof (cases "(x', y') = (x, y)")
          case True
          with that(3) sp show ?thesis
            unfolding mem' by blast
        next
          case False
          with that(1,2) have "a ! cell_index w x' y' AND 1 \<noteq> 0"
            by (auto simp: bit)
          from I7 [OF that(1) this that(3) sp] show ?thesis
            unfolding mem mem' bit [OF inb] by blast
        qed
      qed
      show "a' ! cell_index w x'' y'' \<noteq> 0"
        if "in_map w h x' y'" "a' ! cell_index w x' y' AND 1 \<noteq> 0" and inb: "in_map w h x'' y''"
          and near: "\<bar>x'' - x'\<bar> \<le> 1" "\<bar>y'' - y'\<bar> \<le> 1" for x' y' x'' y''
      proof (cases "(x', y') = (x, y)")
        case True
        with near show ?thesis
          by (simp add: nz [OF inb])
      next
        case False
        with that(1,2) have "a ! cell_index w x' y' AND 1 \<noteq> 0"
          by (auto simp: bit)
        from I8 [OF that(1) this inb near] show ?thesis
          by (simp add: nz [OF inb])
      qed
    qed
    then show ?thesis
      using False by (simp add: st step a'_def stack'_def)
  qed
qed

lemma flood_inv_step:
  assumes "3 \<le> w" "3 \<le> h" "flood_inv w h m st" "0 < stack_size (fst st)"
  shows "\<exists>st'. flood_step w h m st = Inr st' \<and> flood_inv w h m st'"
  by (rule flood_inv_step_table [OF offsets_iff assms])

lemma FloodFill_marks_table:
  assumes table: "\<And>dx dy. (dx, dy) \<in> set offsets \<longleftrightarrow>
      (dx, dy) \<noteq> (0, 0) \<and> \<bar>dx\<bar> \<le> 1 \<and> \<bar>dy\<bar> \<le> 1"
    and wh: "3 \<le> w" "3 \<le> h"
  shows "\<exists>a. FloodFill w h m (flood_start w h) = Inr a \<and> length a = nat (w * h) \<and>
           (\<forall>x y. in_map w h x y \<longrightarrow>
              (a ! cell_index w x y AND 1 \<noteq> 0 \<longleftrightarrow> thick_reachable w h m x y) \<and>
              (a ! cell_index w x y \<noteq> 0 \<longleftrightarrow> brushed w h m x y))"
proof -
  from FloodFill_rule [of "flood_inv w h m" "flood_start w h" w h m,
      OF flood_inv_start [OF wh] flood_inv_step_table [OF table wh]]
  obtain a stack where run: "FloodFill w h m (flood_start w h) = Inr a"
    and inv: "flood_inv w h m (stack, a)" and fin: "stack_size stack \<le> 0"
    by blast
  from inv have ok: "stack_ok stack" and len: "length a = nat (w * h)"
    and I4: "\<And>x y. in_map w h x y \<Longrightarrow> a ! cell_index w x y AND 1 \<noteq> 0 \<Longrightarrow> thick_reachable w h m x y"
    and I5: "\<And>x y. in_map w h x y \<Longrightarrow> a ! cell_index w x y \<noteq> 0 \<Longrightarrow> brushed w h m x y"
    and I6: "(w div 2, h div 2) \<in> set (stack_items stack) \<or>
             a ! cell_index w (w div 2) (h div 2) AND 1 \<noteq> 0"
    and I7: "\<And>x y dx dy. in_map w h x y \<Longrightarrow> a ! cell_index w x y AND 1 \<noteq> 0 \<Longrightarrow>
        (dx, dy) \<in> set offsets \<Longrightarrow> space_3x3 w h m (x + dx) (y + dy) \<Longrightarrow>
        (x + dx, y + dy) \<in> set (stack_items stack) \<or> a ! cell_index w (x + dx) (y + dy) AND 1 \<noteq> 0"
    and I8: "\<And>x y x' y'. in_map w h x y \<Longrightarrow> a ! cell_index w x y AND 1 \<noteq> 0 \<Longrightarrow>
        in_map w h x' y' \<Longrightarrow> \<bar>x' - x\<bar> \<le> 1 \<Longrightarrow> \<bar>y' - y\<bar> \<le> 1 \<Longrightarrow> a ! cell_index w x' y' \<noteq> 0"
    unfolding flood_inv_def by simp_all
  have empty: "stack_items stack = []"
    by (rule stack_items_empty [OF ok fin])
  have reached: "a ! cell_index w x y AND 1 \<noteq> 0" if "thick_reachable w h m x y" for x y
    using that
  proof (induction rule: thick_reachable.induct)
    case centre
    show ?case
      using I6 by (simp add: empty)
  next
    case (step x y x' y')
    have "in_map w h x y"
      by (rule interior_in_map [OF thick_reachable_interior [OF wh step.hyps(1)]])
    moreover have "(x' - x, y' - y) \<in> set offsets"
      unfolding table using step.hyps(2-4) by auto
    moreover have "space_3x3 w h m (x + (x' - x)) (y + (y' - y))"
      using step.hyps(5) by simp
    ultimately have "(x + (x' - x), y + (y' - y)) \<in> set (stack_items stack) \<or>
        a ! cell_index w (x + (x' - x)) (y + (y' - y)) AND 1 \<noteq> 0"
      using step.IH by (intro I7)
    then show ?case
      by (simp add: empty)
  qed
  have "a ! cell_index w x y \<noteq> 0" if xy: "in_map w h x y" and b: "brushed w h m x y" for x y
  proof -
    from b obtain cx cy where c: "thick_reachable w h m cx cy" "\<bar>x - cx\<bar> \<le> 1" "\<bar>y - cy\<bar> \<le> 1"
      unfolding brushed_def by blast
    have "in_map w h cx cy"
      by (rule interior_in_map [OF thick_reachable_interior [OF wh c(1)]])
    from I8 [OF this reached [OF c(1)] xy c(2,3)] show ?thesis .
  qed
  with run len I4 I5 reached show ?thesis
    by blast
qed

lemma FloodFill_no_error:
  assumes "3 \<le> w" "3 \<le> h"
  shows "\<exists>a. FloodFill w h m (flood_start w h) = Inr a \<and> length a = nat (w * h)"
  using FloodFill_marks_table [OF offsets_iff assms, of m] by blast

text \<open>When the map has room for the seed, the nine stores are in bounds, and the carved
  map differs from the old one in those nine cells only.\<close>

lemma store_cell_in_map:
  "in_map w h x y \<Longrightarrow> store_cell w h m x y v = Inr (m[cell_index w x y := v])"
  by (simp add: store_cell_def)

lemma carve_ok:
  assumes "3 \<le> w" "3 \<le> h"
  shows "carve w h m = Inr (carved w h m)"
proof -
  have "in_map w h (w div 2 + dx) (h div 2 + dy)" if "\<bar>dx\<bar> \<le> 1" "\<bar>dy\<bar> \<le> 1" for dx dy
    using that assms by (auto simp: in_map_def)
  from this [of "-1" "-1"] this [of 0 "-1"] this [of 1 "-1"] this [of "-1" 0] this [of 0 0]
    this [of 1 0] this [of "-1" 1] this [of 0 1] this [of 1 1]
  show ?thesis
    by (simp add: carve_def carved_def Let_def store_cell_in_map)
qed

lemma carve_error:
  assumes "\<not> (3 \<le> w \<and> 3 \<le> h)"
  shows "carve w h m = Inl OutOfBounds"
proof -
  have "\<not> in_map w h (w div 2 - 1) (h div 2 - 1) \<or> \<not> in_map w h (w div 2 + 1) (h div 2 + 1)"
    using assms by (auto simp: in_map_def)
  then show ?thesis
    by (auto simp: carve_def Let_def store_cell_def in_map_def split: sum.splits)
qed

lemma length_carved: "length (carved w h m) = length m"
  by (simp add: carved_def Let_def)

lemma nth_update_if:
  "j < length xs \<Longrightarrow> xs[i := v] ! j = (if j = i then v else xs ! j)"
  by (auto simp: nth_list_update)

lemma fold_update_nth:
  "j < length m \<Longrightarrow> fold (\<lambda>i m. m[i := v]) is m ! j = (if j \<in> set is then v else m ! j)"
  by (induction "is" arbitrary: m) (auto simp: nth_update_if)

lemma carved_cell:
  assumes "3 \<le> w" "3 \<le> h" "in_map w h x y" "length m = nat (w * h)"
  shows "carved w h m ! cell_index w x y =
         (if \<bar>x - w div 2\<bar> \<le> 1 \<and> \<bar>y - h div 2\<bar> \<le> 1 then 0 else m ! cell_index w x y)"
proof -
  define cx where "cx = w div 2"
  define cy where "cy = h div 2"
  define ds :: "(int \<times> int) list" where
    "ds = [(-1, -1), (0, -1), (1, -1), (-1, 0), (0, 0), (1, 0), (-1, 1), (0, 1), (1, 1)]"
  have ds: "(dx, dy) \<in> set ds \<longleftrightarrow> \<bar>dx\<bar> \<le> 1 \<and> \<bar>dy\<bar> \<le> 1" for dx dy
    unfolding abs_le_1_iff ds_def by auto
  have c: "in_map w h (cx + dx) (cy + dy)" if "(dx, dy) \<in> set ds" for dx dy
    using that assms(1,2) unfolding ds by (auto simp: in_map_def cx_def cy_def)
  have j: "cell_index w x y < length m"
    using cell_index_less [OF assms(3)] assms(4) by simp
  have "carved w h m = fold (\<lambda>i m. m[i := 0]) (map (\<lambda>(dx, dy). cell_index w (cx + dx) (cy + dy)) ds) m"
    by (simp add: carved_def Let_def ds_def cx_def cy_def)
  then have "carved w h m ! cell_index w x y =
      (if cell_index w x y \<in> set (map (\<lambda>(dx, dy). cell_index w (cx + dx) (cy + dy)) ds)
       then 0 else m ! cell_index w x y)"
    using fold_update_nth [OF j] by simp
  moreover have "cell_index w x y \<in> set (map (\<lambda>(dx, dy). cell_index w (cx + dx) (cy + dy)) ds)
      \<longleftrightarrow> \<bar>x - cx\<bar> \<le> 1 \<and> \<bar>y - cy\<bar> \<le> 1"
  proof
    assume "cell_index w x y \<in> set (map (\<lambda>(dx, dy). cell_index w (cx + dx) (cy + dy)) ds)"
    then obtain dx dy where d: "(dx, dy) \<in> set ds"
        "cell_index w x y = cell_index w (cx + dx) (cy + dy)"
      by auto
    from cell_index_inj [OF assms(3) c [OF d(1)] d(2)] have "dx = x - cx" "dy = y - cy"
      by simp_all
    with d(1) show "\<bar>x - cx\<bar> \<le> 1 \<and> \<bar>y - cy\<bar> \<le> 1"
      by (simp add: ds)
  next
    assume "\<bar>x - cx\<bar> \<le> 1 \<and> \<bar>y - cy\<bar> \<le> 1"
    then have "(x - cx, y - cy) \<in> set ds"
      by (simp add: ds)
    moreover have "cell_index w x y = (\<lambda>(dx, dy). cell_index w (cx + dx) (cy + dy)) (x - cx, y - cy)"
      by simp
    ultimately show "cell_index w x y \<in> set (map (\<lambda>(dx, dy). cell_index w (cx + dx) (cy + dy)) ds)"
      unfolding set_map by (rule image_eqI [rotated])
  qed
  ultimately show ?thesis
    by (simp only: cx_def cy_def)
qed

declare flood_iterations.simps [simp del]

lemma unmarked_update_pred:
  "j < length xs \<Longrightarrow> xs ! j AND 1 = 0 \<Longrightarrow> v AND 1 \<noteq> 0 \<Longrightarrow> unmarked (xs[j := v]) + 1 = unmarked xs"
  unfolding unmarked_def
proof (induction xs arbitrary: j)
  case Nil
  then show ?case by simp
next
  case (Cons a xs)
  show ?case
  proof (cases j)
    case 0
    with Cons.prems show ?thesis
      by simp
  next
    case (Suc k)
    with Cons.prems have "length (filter (\<lambda>v. v AND 1 = 0) (xs[k := v])) + 1
        = length (filter (\<lambda>v. v AND 1 = 0) xs)"
      by (intro Cons.IH) simp_all
    with Suc show ?thesis
      by simp
  qed
qed

lemma stack_size_fold_Push:
  "stack_size (fold (\<lambda>(dx, dy) stack.
       if P (x + dx) (y + dy) then Push stack (x + dx) (y + dy) else stack) ds stack)
     \<le> stack_size stack + int (length ds)"
proof (induction ds arbitrary: stack)
  case Nil
  show ?case by simp
next
  case (Cons d ds)
  obtain dx dy where d: "d = (dx, dy)"
    by (cases d)
  show ?case
  proof (cases "P (x + dx) (y + dy)")
    case True
    then show ?thesis
      using Cons [of "Push stack (x + dx) (y + dy)"] by (simp add: d stack_size_Push)
  next
    case False
    then show ?thesis
      using Cons [of stack] by (simp add: d)
  qed
qed

lemma stack_size_push_neighbors:
  "stack_size (push_neighbors w h m x y stack) \<le> stack_size stack + 8"
  unfolding push_neighbors_def
  using stack_size_fold_Push [of "space_3x3 w h m" x y offsets stack]
  by (simp add: offsets_def)

lemma flood_step_cases:
  assumes "flood_step w h m st = Inr st'"
  shows "snd st' = snd st \<and> stack_size (fst st') = stack_size (fst st) - 1 \<or>
         unmarked (snd st') + 1 = unmarked (snd st) \<and>
         stack_size (fst st') \<le> stack_size (fst st) + 7"
proof -
  obtain fill_stack a where st: "st = (fill_stack, a)"
    by (cases st)
  obtain stack1 x y where pop: "Pop fill_stack = (stack1, x, y)"
    by (cases "Pop fill_stack")
  have s1: "stack_size stack1 = stack_size fill_stack - 1"
    using stack_size_Pop [of fill_stack] pop by simp
  show ?thesis
  proof (cases "a ! nat (y * w + x) AND 1 = 0")
    case True
    with assms st pop have inb: "nat (y * w + x) < length a"
      and st': "st' = (push_neighbors w h m x y stack1,
                       mark_neighbors w h x y (a[nat (y * w + x) := 1]))"
      by (auto simp: flood_step_def Let_def split: if_splits)
    have "unmarked (a[nat (y * w + x) := 1]) + 1 = unmarked a"
      using inb True by (intro unmarked_update_pred) simp_all
    moreover have "stack_size (push_neighbors w h m x y stack1) \<le> stack_size fill_stack + 7"
      using stack_size_push_neighbors [of w h m x y stack1] s1 by simp
    ultimately show ?thesis
      by (simp add: st st' unmarked_mark_neighbors)
  next
    case False
    with assms st pop have "st' = (stack1, a)"
      by (auto simp: flood_step_def Let_def split: if_splits)
    then show ?thesis
      by (simp add: st s1)
  qed
qed

lemma flood_iterations_bound:
  "flood_iterations w h m st \<le> 8 * unmarked (snd st) + nat (stack_size (fst st))"
proof (induction w h m st rule: flood_iterations.induct)
  case (1 w h m st)
  show ?case
  proof (cases "0 < stack_size (fst st)")
    case False
    then show ?thesis
      by (subst flood_iterations.simps) simp
  next
    case True
    show ?thesis
    proof (cases "flood_step w h m st")
      case (Inl e)
      with True show ?thesis
        by (subst flood_iterations.simps) simp
    next
      case (Inr st')
      from "1.IH" [OF True Inr]
      have "flood_iterations w h m st' \<le> 8 * unmarked (snd st') + nat (stack_size (fst st'))" .
      moreover have "8 * unmarked (snd st') + nat (stack_size (fst st')) + 1
          \<le> 8 * unmarked (snd st) + nat (stack_size (fst st))"
        using flood_step_cases [OF Inr] True by auto
      ultimately show ?thesis
        using True Inr by (subst flood_iterations.simps) simp
    qed
  qed
qed

lemma unmarked_replicate: "unmarked (replicate n 0) = n"
  by (simp add: unmarked_def)

lemma flood_start_measure:
  "unmarked (snd (flood_start w h)) = nat (w * h)" "stack_size (fst (flood_start w h)) = 1"
  by (simp_all add: flood_start_def unmarked_replicate stack_size_Push empty_stack_def)

subsection \<open>C6: the flood fill ends\<close>

text \<open>
  C6. The loop \<open>while( fill_stack.size > 0 )\<close> of \<open>FillMapHoles\<close> makes finitely many
  iterations, from any state of the stack and of \<open>accessible_spots\<close>: at most eight for
  every cell not yet marked, plus the size of the stack. An iteration that does not fail
  either only pops (a coordinate already marked: the marks stay, the stack loses one
  element) or marks a cell that was not marked (one unmarked cell less) and pushes at most
  eight coordinates. From the state \<open>FillMapHoles\<close> starts it in, that is at most
  \<open>8 * w * h + 1\<close> iterations.
\<close>

theorem flood_fill_terminates:
  "flood_iterations w h map_data st \<le> 8 * unmarked (snd st) + nat (stack_size (fst st)) \<and>
   flood_iterations w h map_data (flood_start w h) \<le> 8 * nat (w * h) + 1 \<and>
   (\<forall>st'. flood_step w h map_data st = Inr st' \<longrightarrow>
      snd st' = snd st \<and> stack_size (fst st') = stack_size (fst st) - 1 \<or>
      unmarked (snd st') + 1 = unmarked (snd st) \<and>
      stack_size (fst st') \<le> stack_size (fst st) + 7)"
proof (intro conjI allI impI)
  show "flood_iterations w h map_data st \<le> 8 * unmarked (snd st) + nat (stack_size (fst st))"
    by (rule flood_iterations_bound)
  show "flood_iterations w h map_data (flood_start w h) \<le> 8 * nat (w * h) + 1"
    using flood_iterations_bound [of w h map_data "flood_start w h"]
    by (simp add: flood_start_measure)
  show "snd st' = snd st \<and> stack_size (fst st') = stack_size (fst st) - 1 \<or>
      unmarked (snd st') + 1 = unmarked (snd st) \<and>
      stack_size (fst st') \<le> stack_size (fst st) + 7"
    if "flood_step w h map_data st = Inr st'" for st'
    using that by (rule flood_step_cases)
qed

theorem flood_fill_terminates_witness:
  "flood_iterations 3 3 (replicate 9 0) (flood_start 3 3) \<le> 8 * unmarked (snd (flood_start 3 3)) + 1 \<and>
   flood_iterations 3 3 (replicate 9 0) (flood_start 3 3) \<le> 73 \<and>
   (\<exists>st'. flood_step 3 3 (replicate 9 0) (flood_start 3 3) = Inr st' \<and>
      (snd st' = snd (flood_start 3 3) \<and>
         stack_size (fst st') = stack_size (fst (flood_start 3 3)) - 1 \<or>
       unmarked (snd st') + 1 = unmarked (snd (flood_start 3 3)) \<and>
         stack_size (fst st') \<le> stack_size (fst (flood_start 3 3)) + 7))"
proof -
  have "0 < stack_size (fst (flood_start 3 3))"
    by (simp add: flood_start_measure)
  from flood_inv_step [OF _ _ flood_inv_start this, of "replicate 9 0"]
  obtain st' where "flood_step 3 3 (replicate 9 0) (flood_start 3 3) = Inr st'"
    by auto
  then show ?thesis
    using flood_fill_terminates [of 3 3 "replicate 9 0" "flood_start 3 3"]
    by (simp add: flood_start_measure)
qed

subsection \<open>C10: the flood fill stays inside the arrays\<close>

lemma flood_run_inv:
  assumes "3 \<le> w" "3 \<le> h" "flood_run w h m st"
  shows "flood_inv w h m st"
  using assms(3)
proof (induction rule: flood_run.induct)
  case start
  show ?case
    by (rule flood_inv_start [OF assms(1,2)])
next
  case (iteration st st')
  from flood_inv_step [OF assms(1,2) iteration.IH iteration.hyps(2)] iteration.hyps(3)
  show ?case
    by auto
qed

lemma pushed_interior:
  assumes "stack_ok stack" "c \<in> set (stack_items (push_neighbors w h m x y stack))"
  shows "c \<in> set (stack_items stack) \<or> interior w h (fst c) (snd c)"
  using assms(2) unfolding push_neighbors_items(2) [OF assms(1)]
  by (auto dest: space_3x3_interior)

text \<open>
  C10. A coordinate that the push loop of the flood fill adds to the stack is the centre of
  an empty 3x3 space, so it satisfies \<open>1 \<le> x \<le> w - 2\<close> and \<open>1 \<le> y \<le> h - 2\<close>: a cell
  outside the map reads as wall. The first coordinate pushed, the centre of the map, is
  interior for the 160x160 map of the source. Hence, on a map of at least 3x3 cells, in
  every state the loop passes through all coordinates on the stack are interior, the next
  iteration does not index \<open>accessible_spots\<close> out of bounds, and the loop ends without
  such an access.
\<close>

theorem flood_fill_in_bounds:
  "(\<forall>c \<in> set (stack_items (push_neighbors w h map_data x y stack)).
      stack_ok stack \<longrightarrow> c \<in> set (stack_items stack) \<or> interior w h (fst c) (snd c)) \<and>
   interior MAP_WIDTH MAP_HEIGHT (MAP_WIDTH div 2) (MAP_HEIGHT div 2) \<and>
   (3 \<le> w \<longrightarrow> 3 \<le> h \<longrightarrow> flood_run w h map_data st \<longrightarrow>
      (\<forall>c \<in> set (stack_items (fst st)). interior w h (fst c) (snd c)) \<and>
      (0 < stack_size (fst st) \<longrightarrow> (\<exists>st'. flood_step w h map_data st = Inr st'))) \<and>
   (3 \<le> w \<longrightarrow> 3 \<le> h \<longrightarrow> (\<exists>a. FloodFill w h map_data (flood_start w h) = Inr a))"
proof (intro conjI ballI impI)
  show "c \<in> set (stack_items stack) \<or> interior w h (fst c) (snd c)"
    if "c \<in> set (stack_items (push_neighbors w h map_data x y stack))" "stack_ok stack" for c
    using that by (intro pushed_interior)
  show "interior MAP_WIDTH MAP_HEIGHT (MAP_WIDTH div 2) (MAP_HEIGHT div 2)"
    by (simp add: MAP_WIDTH_def MAP_HEIGHT_def interior_def)
  show "interior w h (fst c) (snd c)"
    if wh: "3 \<le> w" "3 \<le> h" and run: "flood_run w h map_data st"
      and c: "c \<in> set (stack_items (fst st))" for c
  proof -
    from flood_run_inv [OF wh run] c have "thick_reachable w h map_data (fst c) (snd c)"
      unfolding flood_inv_def by (cases c) auto
    then show ?thesis
      by (rule thick_reachable_interior [OF wh])
  qed
  show "\<exists>st'. flood_step w h map_data st = Inr st'"
    if wh: "3 \<le> w" "3 \<le> h" and run: "flood_run w h map_data st"
      and "0 < stack_size (fst st)"
    using flood_inv_step [OF wh flood_run_inv [OF wh run] that(4)] by blast
  show "\<exists>a. FloodFill w h map_data (flood_start w h) = Inr a" if "3 \<le> w" "3 \<le> h"
    using FloodFill_no_error [OF that] by blast
qed

lemma space_3x3_replicate:
  assumes "interior w h x y"
  shows "space_3x3 w h (replicate (nat (w * h)) 0) x y"
proof -
  have "MAP_DATA w h (replicate (nat (w * h)) 0) (x + dx) (y + dy) = 0"
    if "\<bar>dx\<bar> \<le> 1" "\<bar>dy\<bar> \<le> 1" for dx dy
  proof -
    have "in_map w h (x + dx) (y + dy)"
      using that assms by (auto simp: interior_def in_map_def)
    then show ?thesis
      using cell_index_less [of w h "x + dx" "y + dy"] by (simp add: MAP_DATA_def in_map_def)
  qed
  from this [of 0 0] this [of 1 0] this [of 1 1] this [of 0 1] this [of "-1" 1] this [of "-1" 0]
    this [of "-1" "-1"] this [of 0 "-1"] this [of 1 "-1"]
  show ?thesis
    by (simp add: space_3x3_def)
qed

theorem flood_fill_in_bounds_witness:
  "(81, 80) \<in> set (stack_items (push_neighbors MAP_WIDTH MAP_HEIGHT (replicate 25600 0) 80 80 empty_stack)) \<and>
   stack_ok empty_stack \<and> interior MAP_WIDTH MAP_HEIGHT 81 80 \<and>
   interior MAP_WIDTH MAP_HEIGHT (MAP_WIDTH div 2) (MAP_HEIGHT div 2) \<and>
   (3 :: int) \<le> MAP_WIDTH \<and> (3 :: int) \<le> MAP_HEIGHT \<and>
   flood_run MAP_WIDTH MAP_HEIGHT (replicate 25600 0) (flood_start MAP_WIDTH MAP_HEIGHT) \<and>
   (80, 80) \<in> set (stack_items (fst (flood_start MAP_WIDTH MAP_HEIGHT))) \<and>
   interior MAP_WIDTH MAP_HEIGHT 80 80 \<and>
   0 < stack_size (fst (flood_start MAP_WIDTH MAP_HEIGHT)) \<and>
   (\<exists>st'. flood_step MAP_WIDTH MAP_HEIGHT (replicate 25600 0) (flood_start MAP_WIDTH MAP_HEIGHT) = Inr st') \<and>
   (\<exists>a. FloodFill MAP_WIDTH MAP_HEIGHT (replicate 25600 0) (flood_start MAP_WIDTH MAP_HEIGHT) = Inr a)"
proof -
  have "space_3x3 160 160 (replicate (nat (160 * 160)) 0) (80 + 1) (80 + 0)"
    by (rule space_3x3_replicate) (simp add: interior_def)
  then have p: "(81, 80) \<in> set (stack_items (push_neighbors 160 160 (replicate 25600 0) 80 80 empty_stack))"
    unfolding push_neighbors_items(2) [OF empty_stack_ok(1)] by (simp add: offsets_def)
  have s: "stack_items (fst (flood_start 160 160)) = [(80, 80)]"
    unfolding flood_start_def using Push_items(2) [OF empty_stack_ok(1), of 80 80]
    by (simp add: empty_stack_ok(2))
  show ?thesis
    using flood_fill_in_bounds [of 160 160 "replicate 25600 0" 80 80 empty_stack
        "flood_start 160 160"] p s
    by (simp add: MAP_WIDTH_def MAP_HEIGHT_def empty_stack_ok(1) flood_run.start
        flood_start_measure interior_def)
qed

section \<open>What FillMapHoles leaves\<close>

lemma MAP_DATA_in_map: "in_map w h x y \<Longrightarrow> MAP_DATA w h m x y = uint (m ! cell_index w x y)"
  by (simp add: MAP_DATA_def in_map_def)

lemma MAP_DATA_0_cell: "MAP_DATA w h m x y = 0 \<Longrightarrow> m ! cell_index w x y = 0"
  by (auto simp: MAP_DATA_def uint_0_iff split: if_splits)

lemma space_3x3_iff:
  "space_3x3 w h m x y \<longleftrightarrow>
     (\<forall>dx dy. \<bar>dx\<bar> \<le> 1 \<longrightarrow> \<bar>dy\<bar> \<le> 1 \<longrightarrow> MAP_DATA w h m (x + dx) (y + dy) = 0)"
proof
  assume s: "space_3x3 w h m x y"
  show "\<forall>dx dy. \<bar>dx\<bar> \<le> 1 \<longrightarrow> \<bar>dy\<bar> \<le> 1 \<longrightarrow> MAP_DATA w h m (x + dx) (y + dy) = 0"
  proof (intro allI impI)
    fix dx dy :: int
    assume "\<bar>dx\<bar> \<le> 1" "\<bar>dy\<bar> \<le> 1"
    then have "(dx = -1 \<or> dx = 0 \<or> dx = 1) \<and> (dy = -1 \<or> dy = 0 \<or> dy = 1)"
      by (simp add: abs_le_1_iff)
    with s show "MAP_DATA w h m (x + dx) (y + dy) = 0"
      unfolding space_3x3_def by (elim conjE disjE) simp_all
  qed
next
  assume a: "\<forall>dx dy. \<bar>dx\<bar> \<le> 1 \<longrightarrow> \<bar>dy\<bar> \<le> 1 \<longrightarrow> MAP_DATA w h m (x + dx) (y + dy) = 0"
  from a [rule_format, of 0 0] a [rule_format, of 1 0] a [rule_format, of 1 1]
    a [rule_format, of 0 1] a [rule_format, of "-1" 1] a [rule_format, of "-1" 0]
    a [rule_format, of "-1" "-1"] a [rule_format, of 0 "-1"] a [rule_format, of 1 "-1"]
  show "space_3x3 w h m x y"
    by (simp add: space_3x3_def)
qed

lemma space_3x3_near:
  assumes "space_3x3 w h m cx cy" "\<bar>x - cx\<bar> \<le> 1" "\<bar>y - cy\<bar> \<le> 1"
  shows "MAP_DATA w h m x y = 0"
  using assms(1) [unfolded space_3x3_iff, rule_format, OF assms(2,3)] by simp

lemma carved_centre_space:
  assumes "3 \<le> w" "3 \<le> h" "length m = nat (w * h)"
  shows "space_3x3 w h (carved w h m) (w div 2) (h div 2)"
  unfolding space_3x3_iff
proof (intro allI impI)
  fix dx dy :: int
  assume d: "\<bar>dx\<bar> \<le> 1" "\<bar>dy\<bar> \<le> 1"
  then have inb: "in_map w h (w div 2 + dx) (h div 2 + dy)"
    using assms(1,2) by (auto simp: in_map_def)
  from carved_cell [OF assms(1,2) inb assms(3)] d
  show "MAP_DATA w h (carved w h m) (w div 2 + dx) (h div 2 + dy) = 0"
    by (simp add: MAP_DATA_in_map [OF inb])
qed

lemma carved_reachable_space:
  assumes "3 \<le> w" "3 \<le> h" "length m = nat (w * h)"
    and "thick_reachable w h (carved w h m) x y"
  shows "space_3x3 w h (carved w h m) x y"
  using assms(4)
  by (induction rule: thick_reachable.induct) (simp_all add: carved_centre_space [OF assms(1-3)])

lemma carved_brushed_empty:
  assumes "3 \<le> w" "3 \<le> h" "length m = nat (w * h)"
    and "brushed w h (carved w h m) x y"
  shows "carved w h m ! cell_index w x y = 0"
proof -
  from assms(4) obtain cx cy where c: "thick_reachable w h (carved w h m) cx cy"
      "\<bar>x - cx\<bar> \<le> 1" "\<bar>y - cy\<bar> \<le> 1"
    unfolding brushed_def by blast
  from space_3x3_near [OF carved_reachable_space [OF assms(1-3) c(1)] c(2,3)]
  show ?thesis
    by (rule MAP_DATA_0_cell)
qed

text \<open>The three arrays of a run of \<open>FillMapHoles\<close> on a map with room for the seed.\<close>

lemma FillMapHoles_run_table:
  assumes table: "\<And>dx dy. (dx, dy) \<in> set offsets \<longleftrightarrow>
      (dx, dy) \<noteq> (0, 0) \<and> \<bar>dx\<bar> \<le> 1 \<and> \<bar>dy\<bar> \<le> 1"
    and wh: "3 \<le> w" "3 \<le> h"
  obtains a where "FloodFill w h (carved w h m) (flood_start w h) = Inr a"
    and "spots_after_flood w h m = Inr a"
    and "spots_before_seal w h m = Inr (mark_single_holes w h (carved w h m) a)"
    and "FillMapHoles w h m =
           Inr (fill_inaccessible w h (carved w h m) (mark_single_holes w h (carved w h m) a))"
    and "length a = nat (w * h)"
    and "\<And>x y. in_map w h x y \<Longrightarrow>
           (a ! cell_index w x y AND 1 \<noteq> 0 \<longleftrightarrow> thick_reachable w h (carved w h m) x y)"
    and "\<And>x y. in_map w h x y \<Longrightarrow>
           (a ! cell_index w x y \<noteq> 0 \<longleftrightarrow> brushed w h (carved w h m) x y)"
proof -
  from FloodFill_marks_table [OF assms, of "carved w h m"] obtain a
    where a: "FloodFill w h (carved w h m) (flood_start w h) = Inr a" "length a = nat (w * h)"
      "\<forall>x y. in_map w h x y \<longrightarrow>
         (a ! cell_index w x y AND 1 \<noteq> 0 \<longleftrightarrow> thick_reachable w h (carved w h m) x y) \<and>
         (a ! cell_index w x y \<noteq> 0 \<longleftrightarrow> brushed w h (carved w h m) x y)"
    by blast
  show thesis
  proof (rule that [of a])
    show "FloodFill w h (carved w h m) (flood_start w h) = Inr a"
      by (rule a(1))
    show "spots_after_flood w h m = Inr a"
      by (simp add: spots_after_flood_def carve_ok [OF wh] a(1))
    show "spots_before_seal w h m = Inr (mark_single_holes w h (carved w h m) a)"
      by (simp add: spots_before_seal_def carve_ok [OF wh] a(1))
    show "FillMapHoles w h m =
           Inr (fill_inaccessible w h (carved w h m) (mark_single_holes w h (carved w h m) a))"
      by (simp add: FillMapHoles_def carve_ok [OF wh] a(1))
    show "length a = nat (w * h)"
      by (rule a(2))
    show "a ! cell_index w x y AND 1 \<noteq> 0 \<longleftrightarrow> thick_reachable w h (carved w h m) x y"
      if "in_map w h x y" for x y
      using a(3) that by blast
    show "a ! cell_index w x y \<noteq> 0 \<longleftrightarrow> brushed w h (carved w h m) x y"
      if "in_map w h x y" for x y
      using a(3) that by blast
  qed
qed

lemma FillMapHoles_run:
  assumes "3 \<le> w" "3 \<le> h"
  obtains a where "FloodFill w h (carved w h m) (flood_start w h) = Inr a"
    and "spots_after_flood w h m = Inr a"
    and "spots_before_seal w h m = Inr (mark_single_holes w h (carved w h m) a)"
    and "FillMapHoles w h m =
           Inr (fill_inaccessible w h (carved w h m) (mark_single_holes w h (carved w h m) a))"
    and "length a = nat (w * h)"
    and "\<And>x y. in_map w h x y \<Longrightarrow>
           (a ! cell_index w x y AND 1 \<noteq> 0 \<longleftrightarrow> thick_reachable w h (carved w h m) x y)"
    and "\<And>x y. in_map w h x y \<Longrightarrow>
           (a ! cell_index w x y \<noteq> 0 \<longleftrightarrow> brushed w h (carved w h m) x y)"
  by (rule FillMapHoles_run_table [OF offsets_iff assms, of m]) (rule that)

lemma FillMapHoles_cells:
  assumes table: "\<And>dx dy. (dx, dy) \<in> set offsets \<longleftrightarrow>
      (dx, dy) \<noteq> (0, 0) \<and> \<bar>dx\<bar> \<le> 1 \<and> \<bar>dy\<bar> \<le> 1"
    and wh: "3 \<le> w" "3 \<le> h" and len: "length m = nat (w * h)"
  obtains a m' where "spots_before_seal w h m = Inr a" and "FillMapHoles w h m = Inr m'"
    and "length a = nat (w * h)" and "length m' = nat (w * h)"
    and "\<And>x y. in_map w h x y \<Longrightarrow>
           (a ! cell_index w x y AND 1 \<noteq> 0 \<longleftrightarrow>
              thick_reachable w h (carved w h m) x y \<or>
              \<not> brushed w h (carved w h m) x y \<and> carved w h m ! cell_index w x y = 0 \<and>
              orthogonal_sum w h (carved w h m) x y = 3)"
    and "\<And>x y. in_map w h x y \<Longrightarrow>
           (a ! cell_index w x y \<noteq> 0 \<longleftrightarrow>
              brushed w h (carved w h m) x y \<or>
              carved w h m ! cell_index w x y = 0 \<and> orthogonal_sum w h (carved w h m) x y = 3)"
    and "\<And>x y. in_map w h x y \<Longrightarrow>
           m' ! cell_index w x y =
             (if carved w h m ! cell_index w x y = 0 \<and> a ! cell_index w x y = 0 then 1
              else carved w h m ! cell_index w x y)"
proof -
  define c where "c = carved w h m"
  have w0: "0 \<le> w" "0 \<le> h"
    using wh by simp_all
  from FillMapHoles_run_table [OF table wh, of m] obtain a0
    where run: "spots_before_seal w h m = Inr (mark_single_holes w h c a0)"
      "FillMapHoles w h m = Inr (fill_inaccessible w h c (mark_single_holes w h c a0))"
      "length a0 = nat (w * h)"
      and bit: "\<And>x y. in_map w h x y \<Longrightarrow>
           (a0 ! cell_index w x y AND 1 \<noteq> 0 \<longleftrightarrow> thick_reachable w h c x y)"
      and nz: "\<And>x y. in_map w h x y \<Longrightarrow> (a0 ! cell_index w x y \<noteq> 0 \<longleftrightarrow> brushed w h c x y)"
    unfolding c_def by metis
  define a where "a = mark_single_holes w h c a0"
  define m' where "m' = fill_inaccessible w h c a"
  have lenc: "length c = nat (w * h)"
    by (simp add: c_def length_carved len)
  have lena: "length a = nat (w * h)"
    by (simp add: a_def mark_single_holes_cell(1) [OF w0] run(3))
  have ax: "a ! cell_index w x y =
      (if c ! cell_index w x y = 0 \<and> a0 ! cell_index w x y = 0 \<and> orthogonal_sum w h c x y = 3
       then 1 else a0 ! cell_index w x y)" if "in_map w h x y" for x y
    unfolding a_def using mark_single_holes_cell(2) [OF w0 that, of a0 c] cell_index_less [OF that] run(3)
    by simp
  show thesis
  proof (rule that [of a m'])
    show "spots_before_seal w h m = Inr a"
      by (simp add: a_def run(1))
    show "FillMapHoles w h m = Inr m'"
      by (simp add: m'_def a_def run(2))
    show "length a = nat (w * h)"
      by (rule lena)
    show "length m' = nat (w * h)"
      by (simp add: m'_def fill_inaccessible_cell(1) [OF w0] lenc)
    show "a ! cell_index w x y AND 1 \<noteq> 0 \<longleftrightarrow>
              thick_reachable w h (carved w h m) x y \<or>
              \<not> brushed w h (carved w h m) x y \<and> carved w h m ! cell_index w x y = 0 \<and>
              orthogonal_sum w h (carved w h m) x y = 3" if "in_map w h x y" for x y
      using ax [OF that] bit [OF that] nz [OF that] by (auto simp: c_def)
    show "a ! cell_index w x y \<noteq> 0 \<longleftrightarrow>
              brushed w h (carved w h m) x y \<or>
              carved w h m ! cell_index w x y = 0 \<and> orthogonal_sum w h (carved w h m) x y = 3"
      if "in_map w h x y" for x y
      using ax [OF that] nz [OF that] by (auto simp: c_def)
    show "m' ! cell_index w x y =
             (if carved w h m ! cell_index w x y = 0 \<and> a ! cell_index w x y = 0 then 1
              else carved w h m ! cell_index w x y)" if "in_map w h x y" for x y
      unfolding m'_def c_def [symmetric]
      using fill_inaccessible_cell(2) [OF w0 that, of c a] cell_index_less [OF that] lenc
      by simp
  qed
qed

lemma thick_reachable_cases:
  "thick_reachable w h m x y \<Longrightarrow> (x, y) = (w div 2, h div 2) \<or> space_3x3 w h m x y"
  by (erule thick_reachable.cases) simp_all

lemma centre_brushed:
  assumes "\<bar>dx\<bar> \<le> 1" "\<bar>dy\<bar> \<le> 1"
  shows "brushed w h m (w div 2 + dx) (h div 2 + dy)"
  unfolding brushed_def using thick_reachable.centre [of w h m] assms
  by (intro exI [of _ "w div 2"] exI [of _ "h div 2"]) simp

lemma corridor_map_cells:
  "length corridor_map = nat (160 * 160)"
  "corridor_map ! 12722 = 0" "corridor_map ! 12882 = 0" "corridor_map ! 13042 = 0"
  by (simp_all add: corridor_map_def)

lemma corridor_carved:
  assumes "79 \<le> x" "x \<le> 82" "79 \<le> y" "y \<le> 81"
  shows "carved 160 160 corridor_map ! cell_index 160 x y = 0"
proof (cases "\<bar>x - 80\<bar> \<le> 1 \<and> \<bar>y - 80\<bar> \<le> 1")
  case True
  have "in_map 160 160 x y"
    using assms by (simp add: in_map_def)
  from carved_cell [OF _ _ this corridor_map_cells(1)] True show ?thesis
    by simp
next
  case False
  with assms have x: "x = 82" and y: "y = 79 \<or> y = 80 \<or> y = 81"
    by auto
  have "in_map 160 160 x y"
    using assms by (simp add: in_map_def)
  from carved_cell [OF _ _ this corridor_map_cells(1)] False
  have "carved 160 160 corridor_map ! cell_index 160 x y = corridor_map ! cell_index 160 x y"
    by simp
  also have "\<dots> = 0"
    using y by (auto simp: x cell_index_def corridor_map_cells)
  finally show ?thesis .
qed

lemma corridor_space: "space_3x3 160 160 (carved 160 160 corridor_map) 81 80"
  unfolding space_3x3_iff
proof (intro allI impI)
  fix dx dy :: int
  assume d: "\<bar>dx\<bar> \<le> 1" "\<bar>dy\<bar> \<le> 1"
  then have "in_map 160 160 (81 + dx) (80 + dy)"
    by (auto simp: in_map_def)
  moreover have "carved 160 160 corridor_map ! cell_index 160 (81 + dx) (80 + dy) = 0"
    using d by (intro corridor_carved) auto
  ultimately show "MAP_DATA 160 160 (carved 160 160 corridor_map) (81 + dx) (80 + dy) = 0"
    by (simp add: MAP_DATA_in_map)
qed

lemma corridor_reachable: "thick_reachable 160 160 (carved 160 160 corridor_map) 81 80"
  using thick_reachable.step [OF thick_reachable.centre [of 160 160 "carved 160 160 corridor_map"],
      of 81 80] corridor_space
  by simp

lemma corridor_brushed: "brushed 160 160 (carved 160 160 corridor_map) 82 80"
  unfolding brushed_def using corridor_reachable
  by (intro exI [of _ 81] exI [of _ 80]) simp

text \<open>On the 5x5 map with no wall, the brush reaches \<open>(1, 3)\<close> from the centre \<open>(2, 2)\<close> by
  one diagonal step.\<close>

lemma open_5x5_carved: "carved 5 5 (replicate 25 0) = replicate 25 0"
  by code_simp

lemma open_5x5_space: "space_3x3 5 5 (carved 5 5 (replicate 25 0)) 1 3"
  by code_simp

lemma open_5x5_reachable: "thick_reachable 5 5 (carved 5 5 (replicate 25 0)) 1 3"
  using thick_reachable.step [OF thick_reachable.centre [of 5 5 "carved 5 5 (replicate 25 0)"],
      of 1 3] open_5x5_space
  by simp

lemma open_5x5_brushed: "brushed 5 5 (carved 5 5 (replicate 25 0)) 0 4"
  unfolding brushed_def using open_5x5_reachable
  by (intro exI [of _ 1] exI [of _ 3]) simp

subsection \<open>C2: the seed\<close>

text \<open>
  C2, as the code has it. On a map of at least 3x3 cells, after \<open>FillMapHoles\<close> the nine
  cells of the 3x3 block centred at \<open>(w div 2, h div 2)\<close> are empty; when the last pass
  runs, each of the nine has a mark other than 0 (bit 1 or bit 2), and the centre has bit 1.
  A cell of the block has bit 1 exactly when the thick brush reaches it as a centre; a
  centre reached, other than the centre of the map, is the centre of an empty 3x3 space.
\<close>

theorem seed_block_kept:
  assumes "3 \<le> w" "3 \<le> h" "length map_data = nat (w * h)" "\<bar>dx\<bar> \<le> 1" "\<bar>dy\<bar> \<le> 1"
  shows "\<exists>a m'. spots_before_seal w h map_data = Inr a \<and> FillMapHoles w h map_data = Inr m' \<and>
           m' ! cell_index w (w div 2 + dx) (h div 2 + dy) = 0 \<and>
           a ! cell_index w (w div 2 + dx) (h div 2 + dy) \<noteq> 0 \<and>
           a ! cell_index w (w div 2) (h div 2) AND 1 \<noteq> 0 \<and>
           (a ! cell_index w (w div 2 + dx) (h div 2 + dy) AND 1 \<noteq> 0 \<longleftrightarrow>
              thick_reachable w h (carved w h map_data) (w div 2 + dx) (h div 2 + dy)) \<and>
           (thick_reachable w h (carved w h map_data) (w div 2 + dx) (h div 2 + dy) \<longrightarrow>
              (dx, dy) \<noteq> (0, 0) \<longrightarrow>
              space_3x3 w h (carved w h map_data) (w div 2 + dx) (h div 2 + dy) \<and>
              (\<exists>cx cy. thick_reachable w h (carved w h map_data) cx cy \<and>
                 (cx, cy) \<noteq> (w div 2 + dx, h div 2 + dy) \<and>
                 \<bar>w div 2 + dx - cx\<bar> \<le> 1 \<and> \<bar>h div 2 + dy - cy\<bar> \<le> 1))"
proof -
  have inb: "in_map w h (w div 2 + dx) (h div 2 + dy)" and inc: "in_map w h (w div 2) (h div 2)"
    using assms(1,2,4,5) by (auto simp: in_map_def)
  have b: "brushed w h (carved w h map_data) (w div 2 + dx) (h div 2 + dy)"
    by (rule centre_brushed [OF assms(4,5)])
  have reached: "space_3x3 w h (carved w h map_data) (w div 2 + dx) (h div 2 + dy) \<and>
      (\<exists>cx cy. thick_reachable w h (carved w h map_data) cx cy \<and>
         (cx, cy) \<noteq> (w div 2 + dx, h div 2 + dy) \<and>
         \<bar>w div 2 + dx - cx\<bar> \<le> 1 \<and> \<bar>h div 2 + dy - cy\<bar> \<le> 1)"
    if r: "thick_reachable w h (carved w h map_data) (w div 2 + dx) (h div 2 + dy)"
      and d: "(dx, dy) \<noteq> (0, 0)"
    using r
  proof (cases rule: thick_reachable.cases)
    case centre
    with d show ?thesis
      by auto
  next
    case (step x y)
    then show ?thesis
      by auto
  qed
  have table: "(ox, oy) \<in> set offsets \<longleftrightarrow>
      (ox, oy) \<noteq> (0, 0) \<and> \<bar>ox\<bar> \<le> 1 \<and> \<bar>oy\<bar> \<le> 1" for ox oy :: int
    unfolding abs_le_1_iff by (auto simp: offsets_def)
  show ?thesis
  proof (rule FillMapHoles_cells [OF table assms(1-3)])
  fix a m'
  assume r: "spots_before_seal w h map_data = Inr a" "FillMapHoles w h map_data = Inr m'"
      and bit: "\<And>x y. in_map w h x y \<Longrightarrow>
           (a ! cell_index w x y AND 1 \<noteq> 0 \<longleftrightarrow>
              thick_reachable w h (carved w h map_data) x y \<or>
              \<not> brushed w h (carved w h map_data) x y \<and>
              carved w h map_data ! cell_index w x y = 0 \<and>
              orthogonal_sum w h (carved w h map_data) x y = 3)"
      and nz: "\<And>x y. in_map w h x y \<Longrightarrow>
           (a ! cell_index w x y \<noteq> 0 \<longleftrightarrow>
              brushed w h (carved w h map_data) x y \<or>
              carved w h map_data ! cell_index w x y = 0 \<and>
              orthogonal_sum w h (carved w h map_data) x y = 3)"
      and cell: "\<And>x y. in_map w h x y \<Longrightarrow>
           m' ! cell_index w x y =
             (if carved w h map_data ! cell_index w x y = 0 \<and> a ! cell_index w x y = 0 then 1
              else carved w h map_data ! cell_index w x y)"
  have "a ! cell_index w (w div 2 + dx) (h div 2 + dy) \<noteq> 0"
    using nz [OF inb] b by simp
  moreover have "m' ! cell_index w (w div 2 + dx) (h div 2 + dy) = 0"
    using cell [OF inb] calculation carved_brushed_empty [OF assms(1-3) b] by simp
  moreover have "a ! cell_index w (w div 2) (h div 2) AND 1 \<noteq> 0"
    using bit [OF inc] thick_reachable.centre [of w h "carved w h map_data"] by simp
  moreover have "a ! cell_index w (w div 2 + dx) (h div 2 + dy) AND 1 \<noteq> 0 \<longleftrightarrow>
      thick_reachable w h (carved w h map_data) (w div 2 + dx) (h div 2 + dy)"
    using bit [OF inb] b by simp
  ultimately show ?thesis
    using r reached by blast
  qed
qed

text \<open>
  Two maps. On the 160x160 map that is all wall but for the three cells \<open>(82, 79)\<close>,
  \<open>(82, 80)\<close> and \<open>(82, 81)\<close>, the brush steps from the centre \<open>(80, 80)\<close> to \<open>(81, 80)\<close>, a
  cell of the seed block, which therefore has bit 1. On the 5x5 map with no wall it steps
  diagonally from \<open>(2, 2)\<close> to \<open>(1, 3)\<close>; the marks that the code computes there are given in
  full, and \<open>(1, 3)\<close> has bit 1 in them.
\<close>

theorem seed_block_kept_witness:
  "(3 :: int) \<le> MAP_WIDTH \<and> (3 :: int) \<le> MAP_HEIGHT \<and>
   length corridor_map = nat (MAP_WIDTH * MAP_HEIGHT) \<and>
   \<bar>1 :: int\<bar> \<le> 1 \<and> \<bar>0 :: int\<bar> \<le> 1 \<and> (1 :: int, 0 :: int) \<noteq> (0, 0) \<and>
   thick_reachable MAP_WIDTH MAP_HEIGHT (carved MAP_WIDTH MAP_HEIGHT corridor_map) 81 80 \<and>
   space_3x3 MAP_WIDTH MAP_HEIGHT (carved MAP_WIDTH MAP_HEIGHT corridor_map) 81 80 \<and>
   (\<exists>a m'. spots_before_seal MAP_WIDTH MAP_HEIGHT corridor_map = Inr a \<and>
      FillMapHoles MAP_WIDTH MAP_HEIGHT corridor_map = Inr m' \<and>
      m' ! cell_index MAP_WIDTH 81 80 = 0 \<and>
      a ! cell_index MAP_WIDTH 81 80 \<noteq> 0 \<and>
      a ! cell_index MAP_WIDTH 81 80 AND 1 \<noteq> 0 \<and>
      a ! cell_index MAP_WIDTH 80 80 AND 1 \<noteq> 0) \<and>
   length (replicate 25 (0 :: 8 word)) = nat (5 * 5) \<and>
   \<bar>- 1 :: int\<bar> \<le> 1 \<and> \<bar>1 :: int\<bar> \<le> 1 \<and> (- 1 :: int, 1 :: int) \<noteq> (0, 0) \<and>
   thick_reachable 5 5 (carved 5 5 (replicate 25 0)) (5 div 2 + - 1) (5 div 2 + 1) \<and>
   (\<exists>a. spots_before_seal 5 5 (replicate 25 0) = Inr a \<and>
      a ! cell_index 5 (5 div 2 + - 1) (5 div 2 + 1) AND 1 \<noteq> 0) \<and>
   spots_before_seal 5 5 (replicate 25 0) =
     Inr [2, 2, 2, 2, 2,
          2, 1, 3, 3, 2,
          2, 3, 3, 3, 2,
          2, 1, 3, 1, 2,
          2, 2, 2, 2, 2]"
proof -
  have run: "spots_before_seal 5 5 (replicate 25 0) =
     Inr [2, 2, 2, 2, 2, 2, 1, 3, 3, 2, 2, 3, 3, 3, 2, 2, 1, 3, 1, 2, 2, 2, 2, 2, 2]"
    by code_simp
  have r: "thick_reachable 5 5 (carved 5 5 (replicate 25 0)) (5 div 2 + - 1) (5 div 2 + 1)"
    using open_5x5_reachable by simp
  from seed_block_kept [of 5 5 "replicate 25 0" "- 1" 1] r
  have small: "\<exists>a. spots_before_seal 5 5 (replicate 25 0) = Inr a \<and>
      a ! cell_index 5 (5 div 2 + - 1) (5 div 2 + 1) AND 1 \<noteq> 0"
    by auto
  have big: "\<exists>a m'. spots_before_seal 160 160 corridor_map = Inr a \<and>
      FillMapHoles 160 160 corridor_map = Inr m' \<and>
      m' ! cell_index 160 81 80 = 0 \<and>
      a ! cell_index 160 81 80 \<noteq> 0 \<and>
      a ! cell_index 160 81 80 AND 1 \<noteq> 0 \<and>
      a ! cell_index 160 80 80 AND 1 \<noteq> 0"
    using seed_block_kept [of 160 160 corridor_map 1 0] corridor_reachable
      corridor_map_cells(1)
    by auto
  show ?thesis
    unfolding MAP_WIDTH_def MAP_HEIGHT_def
    using big small r run corridor_reachable corridor_space corridor_map_cells(1)
    by (intro conjI) simp_all
qed

text \<open>
  C2 as stated fails: bit 1 is set for the centres the brush reaches only. On the 160x160
  map that is all wall, the cell \<open>(79, 79)\<close> of the seed block has a mark when the last pass
  runs, but not bit 1. On the 5x5 map that is all wall, the marks the last pass finds are 1
  at the centre and 2 at the eight cells around it.
\<close>

theorem seed_block_bit_counterexample:
  "(\<exists>a. spots_before_seal MAP_WIDTH MAP_HEIGHT (replicate 25600 1) = Inr a \<and>
        a ! cell_index MAP_WIDTH 79 79 \<noteq> 0 \<and>
        a ! cell_index MAP_WIDTH 79 79 AND 1 = 0) \<and>
   spots_before_seal 5 5 (replicate 25 1) =
     Inr [0, 0, 0, 0, 0,
          0, 2, 2, 2, 0,
          0, 2, 1, 2, 0,
          0, 2, 2, 2, 0,
          0, 0, 0, 0, 0]"
proof
  show "spots_before_seal 5 5 (replicate 25 1) =
     Inr [0, 0, 0, 0, 0,
          0, 2, 2, 2, 0,
          0, 2, 1, 2, 0,
          0, 2, 2, 2, 0,
          0, 0, 0, 0, 0]"
    by code_simp
  show "\<exists>a. spots_before_seal MAP_WIDTH MAP_HEIGHT (replicate 25600 1) = Inr a \<and>
        a ! cell_index MAP_WIDTH 79 79 \<noteq> 0 \<and>
        a ! cell_index MAP_WIDTH 79 79 AND 1 = 0"
  proof -
  define m :: cells where "m = replicate 25600 1"
  define c where "c = carved 160 160 m"
  have len: "length m = nat (160 * 160)"
    by (simp add: m_def)
  have inb: "in_map 160 160 79 79" "in_map 160 160 78 78"
    by (simp_all add: in_map_def)
  have wh: "(3 :: int) \<le> 160"
    by simp
  have wall: "\<And>i. i < 25600 \<Longrightarrow> m ! i = 1"
    by (simp add: m_def)
  show ?thesis
  proof (rule FillMapHoles_cells [OF offsets_iff wh wh len])
  fix a
  assume r: "spots_before_seal 160 160 m = Inr a"
      and bit: "\<And>x y. in_map 160 160 x y \<Longrightarrow>
           (a ! cell_index 160 x y AND 1 \<noteq> 0 \<longleftrightarrow>
              thick_reachable 160 160 (carved 160 160 m) x y \<or>
              \<not> brushed 160 160 (carved 160 160 m) x y \<and>
              carved 160 160 m ! cell_index 160 x y = 0 \<and>
              orthogonal_sum 160 160 (carved 160 160 m) x y = 3)"
      and nz: "\<And>x y. in_map 160 160 x y \<Longrightarrow>
           (a ! cell_index 160 x y \<noteq> 0 \<longleftrightarrow>
              brushed 160 160 (carved 160 160 m) x y \<or>
              carved 160 160 m ! cell_index 160 x y = 0 \<and>
              orthogonal_sum 160 160 (carved 160 160 m) x y = 3)"
  have b: "brushed 160 160 c 79 79"
    using centre_brushed [of "-1" "-1" 160 160 c] by simp
  have "c ! cell_index 160 78 78 = 1"
    unfolding c_def using carved_cell [OF wh wh inb(2) len] by (simp add: wall cell_index_def)
  then have "\<not> space_3x3 160 160 c 79 79"
    using space_3x3_near [of 160 160 c 79 79 78 78] MAP_DATA_0_cell [of 160 160 c 78 78]
    by auto
  then have "\<not> thick_reachable 160 160 c 79 79"
    using thick_reachable_cases [of 160 160 c 79 79] by auto
  with b have "a ! cell_index 160 79 79 AND 1 = 0" "a ! cell_index 160 79 79 \<noteq> 0"
    using bit [OF inb(1)] nz [OF inb(1)] by (auto simp: c_def)
  with r show ?thesis
    unfolding MAP_WIDTH_def MAP_HEIGHT_def m_def by blast
  qed
qed
qed

subsection \<open>C1: what stays open\<close>

text \<open>
  C1, as the code has it. On a map of at least 3x3 cells the nine stores of the seed
  succeed and give the carved map, and a cell is empty after
  \<open>FillMapHoles\<close> exactly when, on the map with the seed carved, it is brushed (it lies in
  the 3x3 block of a centre that the thick brush reaches from the centre of the map through
  a chain of centres of empty 3x3 spaces, each one of the eight cells around the one
  before), or it is an empty cell whose four
  orthogonal neighbours sum to 3 (exactly one of them is empty). The brushed cells are
  empty. Cells of the second kind are kept whether or not their empty neighbour is kept
  too, so they need not be isolated.
\<close>

theorem FillMapHoles_open_cells:
  assumes "3 \<le> w" "3 \<le> h" "length map_data = nat (w * h)"
  shows "\<exists>m'. carve w h map_data = Inr (carved w h map_data) \<and>
           FillMapHoles w h map_data = Inr m' \<and> length m' = length map_data \<and>
           (\<forall>x y. in_map w h x y \<longrightarrow>
              (m' ! cell_index w x y = 0 \<longleftrightarrow>
                 brushed w h (carved w h map_data) x y \<or>
                 carved w h map_data ! cell_index w x y = 0 \<and>
                 orthogonal_sum w h (carved w h map_data) x y = 3) \<and>
              (brushed w h (carved w h map_data) x y \<longrightarrow>
                 carved w h map_data ! cell_index w x y = 0))"
proof -
  have table: "(ox, oy) \<in> set offsets \<longleftrightarrow>
      (ox, oy) \<noteq> (0, 0) \<and> \<bar>ox\<bar> \<le> 1 \<and> \<bar>oy\<bar> \<le> 1" for ox oy :: int
    unfolding abs_le_1_iff by (auto simp: offsets_def)
  show ?thesis
  proof (rule FillMapHoles_cells [OF table assms])
  fix a m'
  assume r: "FillMapHoles w h map_data = Inr m'" "length m' = nat (w * h)"
    and nz: "\<And>x y. in_map w h x y \<Longrightarrow>
           (a ! cell_index w x y \<noteq> 0 \<longleftrightarrow>
              brushed w h (carved w h map_data) x y \<or>
              carved w h map_data ! cell_index w x y = 0 \<and>
              orthogonal_sum w h (carved w h map_data) x y = 3)"
    and cell: "\<And>x y. in_map w h x y \<Longrightarrow>
           m' ! cell_index w x y =
             (if carved w h map_data ! cell_index w x y = 0 \<and> a ! cell_index w x y = 0 then 1
              else carved w h map_data ! cell_index w x y)"
  have "(m' ! cell_index w x y = 0 \<longleftrightarrow>
                 brushed w h (carved w h map_data) x y \<or>
                 carved w h map_data ! cell_index w x y = 0 \<and>
                 orthogonal_sum w h (carved w h map_data) x y = 3) \<and>
              (brushed w h (carved w h map_data) x y \<longrightarrow>
                 carved w h map_data ! cell_index w x y = 0)" if "in_map w h x y" for x y
    using cell [OF that] nz [OF that] carved_brushed_empty [OF assms, of x y] by auto
  with r assms(3) carve_ok [OF assms(1,2), of map_data] show ?thesis
    by simp
  qed
qed

lemma pocket_map_cells:
  "length pocket_map = nat (160 * 160)"
  "pocket_map ! 0 = 0" "pocket_map ! 1 = 0" "pocket_map ! Suc 0 = 0"
  "\<And>i. 2 \<le> i \<Longrightarrow> i < 25600 \<Longrightarrow> pocket_map ! i = 1"
  by (simp_all add: pocket_map_def)

lemma pocket_carved:
  assumes "in_map 160 160 x y" "\<not> (\<bar>x - 80\<bar> \<le> 1 \<and> \<bar>y - 80\<bar> \<le> 1)"
  shows "carved 160 160 pocket_map ! cell_index 160 x y = pocket_map ! cell_index 160 x y"
  using carved_cell [OF _ _ assms(1) pocket_map_cells(1)] assms(2) by simp

lemma pocket_carved_cells:
  "carved 160 160 pocket_map ! cell_index 160 0 0 = 0"
  "carved 160 160 pocket_map ! cell_index 160 1 0 = 0"
  "carved 160 160 pocket_map ! cell_index 160 2 0 = 1"
  "carved 160 160 pocket_map ! cell_index 160 0 1 = 1"
  "carved 160 160 pocket_map ! cell_index 160 1 1 = 1"
  "carved 160 160 pocket_map ! cell_index 160 2 2 = 1"
  using pocket_carved [of 0 0] pocket_carved [of 1 0] pocket_carved [of 2 0]
    pocket_carved [of 0 1] pocket_carved [of 1 1] pocket_carved [of 2 2]
  by (simp_all add: in_map_def cell_index_def pocket_map_cells)

lemma pocket_walls:
  "MAP_DATA 160 160 (carved 160 160 pocket_map) 2 0 = 1"
  "MAP_DATA 160 160 (carved 160 160 pocket_map) 0 1 = 1"
  "MAP_DATA 160 160 (carved 160 160 pocket_map) 1 1 = 1"
  "MAP_DATA 160 160 (carved 160 160 pocket_map) 2 2 = 1"
  "MAP_DATA 160 160 (carved 160 160 pocket_map) 0 0 = 0"
  "MAP_DATA 160 160 (carved 160 160 pocket_map) 1 0 = 0"
  "MAP_DATA 160 160 (carved 160 160 pocket_map) (- 1) 0 = 1"
  "MAP_DATA 160 160 (carved 160 160 pocket_map) 0 (- 1) = 1"
  "MAP_DATA 160 160 (carved 160 160 pocket_map) 1 (- 1) = 1"
  by (simp_all add: MAP_DATA_def pocket_carved_cells)

lemma pocket_not_brushed:
  assumes "x \<le> 1" "y \<le> 0"
  shows "\<not> brushed 160 160 (carved 160 160 pocket_map) x y"
proof
  assume "brushed 160 160 (carved 160 160 pocket_map) x y"
  then obtain cx cy where c: "thick_reachable 160 160 (carved 160 160 pocket_map) cx cy"
      "\<bar>x - cx\<bar> \<le> 1" "\<bar>y - cy\<bar> \<le> 1"
    unfolding brushed_def by blast
  from thick_reachable_interior [OF _ _ c(1)] have "1 \<le> cx" "1 \<le> cy"
    by (simp_all add: interior_def)
  with assms c(2,3) have near: "\<bar>2 - cx\<bar> \<le> 1" "\<bar>2 - cy\<bar> \<le> 1" and "cx \<noteq> 80"
    by auto
  with thick_reachable_cases [OF c(1)] have "space_3x3 160 160 (carved 160 160 pocket_map) cx cy"
    by auto
  from space_3x3_near [OF this near] show False
    by (simp add: pocket_walls)
qed

text \<open>
  C1 as stated fails. On that map the two cells \<open>(0, 0)\<close> and \<open>(1, 0)\<close> are both empty
  after \<open>FillMapHoles\<close>: each has the other as its one empty orthogonal neighbour. They are
  not brushed, they are next to each other, and the other cells next to them are wall:
  an open region of two cells, cut off from the centre, remains. The same happens on the
  6x5 map that is all wall but for \<open>(0, 0)\<close> and \<open>(0, 1)\<close>.
\<close>

theorem two_cell_pocket_counterexample:
  "(\<exists>m'. FillMapHoles MAP_WIDTH MAP_HEIGHT ((replicate 25600 1)[0 := 0, 1 := 0]) = Inr m' \<and>
     m' ! cell_index MAP_WIDTH 0 0 = 0 \<and> m' ! cell_index MAP_WIDTH 1 0 = 0 \<and>
     m' ! cell_index MAP_WIDTH 2 0 = 1 \<and> m' ! cell_index MAP_WIDTH 0 1 = 1 \<and>
     m' ! cell_index MAP_WIDTH 1 1 = 1 \<and>
     \<not> brushed MAP_WIDTH MAP_HEIGHT (carved MAP_WIDTH MAP_HEIGHT ((replicate 25600 1)[0 := 0, 1 := 0])) 0 0 \<and>
     \<not> brushed MAP_WIDTH MAP_HEIGHT (carved MAP_WIDTH MAP_HEIGHT ((replicate 25600 1)[0 := 0, 1 := 0])) 1 0) \<and>
   FillMapHoles 6 5
      [0, 1, 1, 1, 1, 1,
       0, 1, 1, 1, 1, 1,
       1, 1, 1, 1, 1, 1,
       1, 1, 1, 1, 1, 1,
       1, 1, 1, 1, 1, 1] =
   Inr [0, 1, 1, 1, 1, 1,
        0, 1, 0, 0, 0, 1,
        1, 1, 0, 0, 0, 1,
        1, 1, 0, 0, 0, 1,
        1, 1, 1, 1, 1, 1]"
proof
  show "FillMapHoles 6 5
      [0, 1, 1, 1, 1, 1,
       0, 1, 1, 1, 1, 1,
       1, 1, 1, 1, 1, 1,
       1, 1, 1, 1, 1, 1,
       1, 1, 1, 1, 1, 1] =
   Inr [0, 1, 1, 1, 1, 1,
        0, 1, 0, 0, 0, 1,
        1, 1, 0, 0, 0, 1,
        1, 1, 0, 0, 0, 1,
        1, 1, 1, 1, 1, 1]"
    by code_simp
  show "\<exists>m'. FillMapHoles MAP_WIDTH MAP_HEIGHT ((replicate 25600 1)[0 := 0, 1 := 0]) = Inr m' \<and>
     m' ! cell_index MAP_WIDTH 0 0 = 0 \<and> m' ! cell_index MAP_WIDTH 1 0 = 0 \<and>
     m' ! cell_index MAP_WIDTH 2 0 = 1 \<and> m' ! cell_index MAP_WIDTH 0 1 = 1 \<and>
     m' ! cell_index MAP_WIDTH 1 1 = 1 \<and>
     \<not> brushed MAP_WIDTH MAP_HEIGHT (carved MAP_WIDTH MAP_HEIGHT ((replicate 25600 1)[0 := 0, 1 := 0])) 0 0 \<and>
     \<not> brushed MAP_WIDTH MAP_HEIGHT (carved MAP_WIDTH MAP_HEIGHT ((replicate 25600 1)[0 := 0, 1 := 0])) 1 0"
  proof -
  have wh: "(3 :: int) \<le> 160"
    by simp
  have inb: "in_map 160 160 0 0" "in_map 160 160 1 0" "in_map 160 160 2 0" "in_map 160 160 0 1"
      "in_map 160 160 1 1"
    by (simp_all add: in_map_def)
  have nb: "\<not> brushed 160 160 (carved 160 160 pocket_map) 0 0"
      "\<not> brushed 160 160 (carved 160 160 pocket_map) 1 0"
    by (rule pocket_not_brushed; simp)+
  have sums: "orthogonal_sum 160 160 (carved 160 160 pocket_map) 0 0 = 3"
      "orthogonal_sum 160 160 (carved 160 160 pocket_map) 1 0 = 3"
    by (simp_all add: orthogonal_sum_def pocket_walls)
  note cells = pocket_carved_cells
  have "\<exists>m'. FillMapHoles 160 160 pocket_map = Inr m' \<and>
     m' ! cell_index 160 0 0 = 0 \<and> m' ! cell_index 160 1 0 = 0 \<and>
     m' ! cell_index 160 2 0 = 1 \<and> m' ! cell_index 160 0 1 = 1 \<and> m' ! cell_index 160 1 1 = 1"
  proof (rule FillMapHoles_cells [OF offsets_iff wh wh pocket_map_cells(1)])
    fix a m'
    assume r: "FillMapHoles 160 160 pocket_map = Inr m'"
      and nz: "\<And>x y. in_map 160 160 x y \<Longrightarrow>
           (a ! cell_index 160 x y \<noteq> 0 \<longleftrightarrow>
              brushed 160 160 (carved 160 160 pocket_map) x y \<or>
              carved 160 160 pocket_map ! cell_index 160 x y = 0 \<and>
              orthogonal_sum 160 160 (carved 160 160 pocket_map) x y = 3)"
      and cell: "\<And>x y. in_map 160 160 x y \<Longrightarrow>
           m' ! cell_index 160 x y =
             (if carved 160 160 pocket_map ! cell_index 160 x y = 0 \<and> a ! cell_index 160 x y = 0
              then 1 else carved 160 160 pocket_map ! cell_index 160 x y)"
    have "a ! cell_index 160 0 0 \<noteq> 0" "a ! cell_index 160 1 0 \<noteq> 0"
      using nz [OF inb(1)] nz [OF inb(2)] sums cells(1,2) by simp_all
    then show ?thesis
      using r cell [OF inb(1)] cell [OF inb(2)] cell [OF inb(3)] cell [OF inb(4)] cell [OF inb(5)]
        cells
      by simp
  qed
  with nb show ?thesis
    unfolding MAP_WIDTH_def MAP_HEIGHT_def pocket_map_def by blast
qed
qed

text \<open>
  Two maps. On the 160x160 map above, the cell \<open>(82, 80)\<close> lies outside the seed block and
  stays empty: it is in the 3x3 block of \<open>(81, 80)\<close>, which the brush reaches from the centre
  by one step. On the 5x5 map with no wall, the corner \<open>(0, 4)\<close> stays empty: it is in the
  3x3 block of \<open>(1, 3)\<close>, reached from \<open>(2, 2)\<close> by one diagonal step; the map that the code
  computes there is given in full.
\<close>

theorem FillMapHoles_open_cells_witness:
  "(3 :: int) \<le> MAP_WIDTH \<and> (3 :: int) \<le> MAP_HEIGHT \<and>
   length corridor_map = nat (MAP_WIDTH * MAP_HEIGHT) \<and> in_map MAP_WIDTH MAP_HEIGHT 82 80 \<and>
   \<bar>82 - MAP_WIDTH div 2\<bar> = 2 \<and>
   thick_reachable MAP_WIDTH MAP_HEIGHT (carved MAP_WIDTH MAP_HEIGHT corridor_map)
     (MAP_WIDTH div 2) (MAP_HEIGHT div 2) \<and>
   (81, 80) \<noteq> (MAP_WIDTH div 2, MAP_HEIGHT div 2) \<and>
   \<bar>81 - MAP_WIDTH div 2\<bar> \<le> 1 \<and> \<bar>80 - MAP_HEIGHT div 2\<bar> \<le> 1 \<and>
   space_3x3 MAP_WIDTH MAP_HEIGHT (carved MAP_WIDTH MAP_HEIGHT corridor_map) 81 80 \<and>
   thick_reachable MAP_WIDTH MAP_HEIGHT (carved MAP_WIDTH MAP_HEIGHT corridor_map) 81 80 \<and>
   brushed MAP_WIDTH MAP_HEIGHT (carved MAP_WIDTH MAP_HEIGHT corridor_map) 82 80 \<and>
   carve MAP_WIDTH MAP_HEIGHT corridor_map = Inr (carved MAP_WIDTH MAP_HEIGHT corridor_map) \<and>
   carved MAP_WIDTH MAP_HEIGHT corridor_map ! cell_index MAP_WIDTH 82 80 = 0 \<and>
   (\<exists>m'. FillMapHoles MAP_WIDTH MAP_HEIGHT corridor_map = Inr m' \<and>
      length m' = length corridor_map \<and> m' ! cell_index MAP_WIDTH 82 80 = 0) \<and>
   length (replicate 25 (0 :: 8 word)) = nat (5 * 5) \<and> in_map 5 5 0 4 \<and>
   (1, 3) \<noteq> (5 div 2 :: int, 5 div 2 :: int) \<and>
   \<bar>1 - 5 div 2 :: int\<bar> \<le> 1 \<and> \<bar>3 - 5 div 2 :: int\<bar> \<le> 1 \<and>
   space_3x3 5 5 (carved 5 5 (replicate 25 0)) 1 3 \<and>
   thick_reachable 5 5 (carved 5 5 (replicate 25 0)) 1 3 \<and>
   brushed 5 5 (carved 5 5 (replicate 25 0)) 0 4 \<and>
   (\<exists>m'. FillMapHoles 5 5 (replicate 25 0) = Inr m' \<and> m' ! cell_index 5 0 4 = 0) \<and>
   FillMapHoles 5 5 (replicate 25 0) =
     Inr [0, 0, 0, 0, 0,
          0, 0, 0, 0, 0,
          0, 0, 0, 0, 0,
          0, 0, 0, 0, 0,
          0, 0, 0, 0, 0]"
proof -
  have run: "FillMapHoles 5 5 (replicate 25 0) =
     Inr [0, 0, 0, 0, 0, 0, 0, 0, 0, 0, 0, 0, 0, 0, 0, 0, 0, 0, 0, 0, 0, 0, 0, 0, 0]"
    by code_simp
  have i: "in_map 160 160 82 80" "in_map 5 5 0 4"
    by (simp_all add: in_map_def)
  from FillMapHoles_open_cells [of 5 5 "replicate 25 0"] open_5x5_brushed i(2)
  have small: "\<exists>m'. FillMapHoles 5 5 (replicate 25 0) = Inr m' \<and> m' ! cell_index 5 0 4 = 0"
    by auto
  from FillMapHoles_open_cells [of 160 160 corridor_map] corridor_brushed i(1)
    corridor_map_cells(1)
  have big: "carve 160 160 corridor_map = Inr (carved 160 160 corridor_map) \<and>
     carved 160 160 corridor_map ! cell_index 160 82 80 = 0 \<and>
     (\<exists>m'. FillMapHoles 160 160 corridor_map = Inr m' \<and>
        length m' = length corridor_map \<and> m' ! cell_index 160 82 80 = 0)"
    by auto
  show ?thesis
    unfolding MAP_WIDTH_def MAP_HEIGHT_def
    using big small run i corridor_brushed corridor_reachable corridor_space
      thick_reachable.centre [of 160 160 "carved 160 160 corridor_map"] corridor_map_cells(1)
      open_5x5_space open_5x5_reachable open_5x5_brushed
    by (intro conjI) simp_all
qed

section \<open>Maps of walls and empty cells\<close>

lemma binary_MAP_DATA:
  assumes "binary_map m" "length m = nat (w * h)"
  shows "MAP_DATA w h m x y = 0 \<or> MAP_DATA w h m x y = 1"
proof (cases "in_map w h x y")
  case True
  then have "m ! cell_index w x y \<in> set m"
    using cell_index_less [OF True] assms(2) by simp
  with assms(1) have "m ! cell_index w x y = 0 \<or> m ! cell_index w x y = 1"
    unfolding binary_map_def by blast
  then show ?thesis
    by (auto simp: MAP_DATA_in_map [OF True])
next
  case False
  then show ?thesis
    by (simp add: MAP_DATA_def in_map_def)
qed

lemma sum_list_binary:
  assumes "\<And>d. f d = 0 \<or> f d = (1 :: int)"
  shows "sum_list (map f ds) = int (length (filter (\<lambda>d. f d \<noteq> 0) ds))"
    and "sum_list (map f ds) = int (length ds) - int (length (filter (\<lambda>d. f d = 0) ds))"
proof -
  show "sum_list (map f ds) = int (length (filter (\<lambda>d. f d \<noteq> 0) ds))"
  proof (induction ds)
    case Nil
    show ?case by simp
  next
    case (Cons d ds)
    then show ?case
      using assms [of d] by auto
  qed
  show "sum_list (map f ds) = int (length ds) - int (length (filter (\<lambda>d. f d = 0) ds))"
  proof (induction ds)
    case Nil
    show ?case by simp
  next
    case (Cons d ds)
    then show ?case
      using assms [of d] by auto
  qed
qed

lemma neighbor_count_walls:
  assumes "binary_map m" "length m = nat (w * h)"
  shows "neighbor_count w h m x y = int (walls_among moore w h m x y)"
proof -
  have b: "\<And>d. (\<lambda>(dx, dy). MAP_DATA w h m (x + dx) (y + dy)) d = 0 \<or>
               (\<lambda>(dx, dy). MAP_DATA w h m (x + dx) (y + dy)) d = 1"
    using binary_MAP_DATA [OF assms] by (auto simp: case_prod_unfold)
  have "neighbor_count w h m x y =
        sum_list (map (\<lambda>(dx, dy). MAP_DATA w h m (x + dx) (y + dy)) moore)"
    by (simp add: neighbor_count_def moore_def)
  also have "\<dots> = int (length (filter (\<lambda>d. (\<lambda>(dx, dy). MAP_DATA w h m (x + dx) (y + dy)) d \<noteq> 0) moore))"
    by (rule sum_list_binary(1) [OF b])
  also have "\<dots> = int (walls_among moore w h m x y)"
    by (simp add: walls_among_def case_prod_unfold)
  finally show ?thesis .
qed

lemma orthogonal_sum_walls:
  assumes "binary_map m" "length m = nat (w * h)"
  shows "orthogonal_sum w h m x y = int (walls_among orthogonal w h m x y)"
    and "orthogonal_sum w h m x y = 4 - int (empty_among orthogonal w h m x y)"
proof -
  have s: "orthogonal_sum w h m x y =
        sum_list (map (\<lambda>(dx, dy). MAP_DATA w h m (x + dx) (y + dy)) orthogonal)"
    by (simp add: orthogonal_sum_def orthogonal_def)
  have b: "\<And>d. (\<lambda>(dx, dy). MAP_DATA w h m (x + dx) (y + dy)) d = 0 \<or>
               (\<lambda>(dx, dy). MAP_DATA w h m (x + dx) (y + dy)) d = 1"
    using binary_MAP_DATA [OF assms] by (auto simp: case_prod_unfold)
  show "orthogonal_sum w h m x y = int (walls_among orthogonal w h m x y)"
    unfolding s sum_list_binary(1) [of "\<lambda>(dx, dy). MAP_DATA w h m (x + dx) (y + dy)", OF b]
    by (simp add: walls_among_def case_prod_unfold)
  show "orthogonal_sum w h m x y = 4 - int (empty_among orthogonal w h m x y)"
    unfolding s sum_list_binary(2) [of "\<lambda>(dx, dy). MAP_DATA w h m (x + dx) (y + dy)", OF b]
    by (simp add: empty_among_def case_prod_unfold orthogonal_def)
qed

lemma smooth_pass_eq:
  assumes "0 \<le> w" "0 \<le> h" "length m = nat (w * h)" "length b = nat (w * h)"
  shows "smooth_pass w h (m, b) = (smooth_buffer w h m b, smooth_buffer w h m b)"
  using smooth_buffer_cell(1) [OF assms(1,2), of m b] assms(3,4)
  by (simp add: smooth_pass_def memcpy_def Let_def)

lemma binary_smooth_buffer:
  assumes "0 \<le> w" "0 \<le> h" "length b = nat (w * h)"
  shows "binary_map (smooth_buffer w h m b)"
  unfolding smooth_buffer_eq [OF assms] binary_map_def by auto

lemma SmoothMapCells_passes:
  "SmoothMapCells w h m b = fst ((smooth_pass w h ^^ 4) (m, b))"
proof -
  have "[0 ..< 4] = [0, 1, 2, 3 :: nat]"
    by (simp add: upt_rec)
  then show ?thesis
    by (simp add: SmoothMapCells_def numeral_eq_Suc)
qed

subsection \<open>C3: one smoothing pass\<close>

text \<open>
  C3. On a map of 0s and 1s, one pass of \<open>SmoothMapCells\<close> sets the cell \<open>(x, y)\<close> to 1
  (wall) exactly when more than 4 of the nine positions of its 3x3 neighbourhood, the cell
  included, are wall on the map as it was before the pass, and to 0 otherwise; a position
  outside the map is wall, so the corner of a map with no wall at all, with five of its
  nine positions outside, becomes wall. The new cells are built in \<open>buffer\<close>, which
  replaces the map after the pass; the result does not depend on what \<open>buffer\<close> held, is
  again a map of 0s and 1s of the same size, and \<open>SmoothMapCells\<close> is four such passes.
\<close>

theorem smooth_pass_cell:
  assumes "in_map w h x y" "length map_data = nat (w * h)" "length buffer = nat (w * h)"
    and "binary_map map_data"
  shows "fst (smooth_pass w h (map_data, buffer)) ! cell_index w x y =
           (if 4 < wall_count w h map_data x y then 1 else 0) \<and>
         snd (smooth_pass w h (map_data, buffer)) = fst (smooth_pass w h (map_data, buffer)) \<and>
         length (fst (smooth_pass w h (map_data, buffer))) = length map_data \<and>
         binary_map (fst (smooth_pass w h (map_data, buffer))) \<and>
         SmoothMapCells w h map_data buffer = fst ((smooth_pass w h ^^ 4) (map_data, buffer))"
proof -
  from assms(1) have w0: "0 \<le> w" "0 \<le> h"
    by (auto simp: in_map_def)
  have j: "cell_index w x y < length buffer"
    using cell_index_less [OF assms(1)] assms(3) by simp
  have wall: "wall_at w h map_data u v \<longleftrightarrow> MAP_DATA w h map_data u v \<noteq> 0" for u v
    by (auto simp: MAP_DATA_def wall_at_def uint_0_iff)
  have count: "wall_count w h map_data x y = walls_among moore w h map_data x y"
    by (simp add: wall_count_def walls_among_def wall)
  have "smooth_buffer w h map_data buffer ! cell_index w x y =
      (if 4 < wall_count w h map_data x y then 1 else 0)"
    using smooth_buffer_cell(2) [OF w0 assms(1) j, of map_data]
      neighbor_count_walls [OF assms(4,2), of x y]
    by (auto simp: count)
  then show ?thesis
    using smooth_buffer_cell(1) [OF w0, of map_data buffer] assms(2,3)
      binary_smooth_buffer [OF w0 assms(3), of map_data]
    by (simp add: smooth_pass_eq [OF w0 assms(2,3)] SmoothMapCells_passes)
qed

text \<open>
  On the 3x3 map with no wall: the corner \<open>(0, 0)\<close> has five of its nine positions outside
  the map and becomes wall, the centre \<open>(1, 1)\<close> has none and stays empty. The sums
  that the code computes at the corner and at the edge cell \<open>(1, 0)\<close>, 5 and 3, and the
  whole map after the pass are given as the code computes them.
\<close>

theorem smooth_pass_cell_witness:
  "in_map 3 3 0 0 \<and> length [0, 0, 0, 0, 0, 0, 0, 0, 0 :: 8 word] = nat (3 * 3) \<and>
   length (replicate 9 (7 :: 8 word)) = nat (3 * 3) \<and>
   binary_map [0, 0, 0, 0, 0, 0, 0, 0, 0] \<and>
   wall_count 3 3 [0, 0, 0, 0, 0, 0, 0, 0, 0] 0 0 = 5 \<and>
   fst (smooth_pass 3 3 ([0, 0, 0, 0, 0, 0, 0, 0, 0], replicate 9 7)) ! cell_index 3 0 0 = 1 \<and>
   in_map 3 3 1 1 \<and>
   wall_count 3 3 [0, 0, 0, 0, 0, 0, 0, 0, 0] 1 1 = 0 \<and>
   fst (smooth_pass 3 3 ([0, 0, 0, 0, 0, 0, 0, 0, 0], replicate 9 7)) ! cell_index 3 1 1 = 0 \<and>
   neighbor_count 3 3 [0, 0, 0, 0, 0, 0, 0, 0, 0] 0 0 = 5 \<and>
   neighbor_count 3 3 [0, 0, 0, 0, 0, 0, 0, 0, 0] 1 0 = 3 \<and>
   smooth_pass 3 3 ([0, 0, 0, 0, 0, 0, 0, 0, 0], replicate 9 7) =
     ([1, 0, 1,
       0, 0, 0,
       1, 0, 1],
      [1, 0, 1,
       0, 0, 0,
       1, 0, 1])"
proof -
  have run: "neighbor_count 3 3 [0, 0, 0, 0, 0, 0, 0, 0, 0] 0 0 = 5"
    "neighbor_count 3 3 [0, 0, 0, 0, 0, 0, 0, 0, 0] 1 0 = 3"
    "smooth_pass 3 3 ([0, 0, 0, 0, 0, 0, 0, 0, 0], replicate 9 7) =
       ([1, 0, 1, 0, 0, 0, 1, 0, 1], [1, 0, 1, 0, 0, 0, 1, 0, 1])"
    by code_simp+
  have h: "length [0, 0, 0, 0, 0, 0, 0, 0, 0 :: 8 word] = nat (3 * 3)"
    "length (replicate 9 (7 :: 8 word)) = nat (3 * 3)" "binary_map [0, 0, 0, 0, 0, 0, 0, 0, 0]"
    by (simp_all add: binary_map_def)
  have i: "in_map 3 3 0 0" "in_map 3 3 1 1"
    by (simp_all add: in_map_def)
  have c: "wall_count 3 3 [0, 0, 0, 0, 0, 0, 0, 0, 0] 0 0 = 5"
    "wall_count 3 3 [0, 0, 0, 0, 0, 0, 0, 0, 0] 1 1 = 0"
    by (simp_all add: wall_count_def moore_def wall_at_def cell_index_def)
  from smooth_pass_cell [OF i(1) h] smooth_pass_cell [OF i(2) h] c h i
  have "fst (smooth_pass 3 3 ([0, 0, 0, 0, 0, 0, 0, 0, 0], replicate 9 7)) ! cell_index 3 0 0 = 1"
    "fst (smooth_pass 3 3 ([0, 0, 0, 0, 0, 0, 0, 0, 0], replicate 9 7)) ! cell_index 3 1 1 = 0"
    by simp_all
  with c h i run show ?thesis
    by (intro conjI)
qed

lemma binary_carved: "binary_map m \<Longrightarrow> binary_map (carved w h m)"
proof -
  have "binary_map (xs[i := 0])" if "binary_map xs" for xs i
    using that set_update_subset_insert [of xs i 0] unfolding binary_map_def by blast
  then show "binary_map m \<Longrightarrow> binary_map (carved w h m)"
    by (simp add: carved_def Let_def)
qed

subsection \<open>C4: the single-cell holes\<close>

text \<open>
  C4. Take a map of at least 3x3 cells and a cell that, on the map with the seed carved,
  is empty and has the mark 0 when the flood fill is over. The pass that keeps the holes
  gives it the mark 1, and the last pass leaves it empty, exactly when the values of its
  four orthogonal neighbours (outside the map counted as wall) sum to 3; otherwise its
  mark stays 0 and the last pass makes it wall. On a map of 0s and 1s the sum is 3
  exactly when one of the four neighbours is empty.
\<close>

theorem single_hole_kept:
  assumes "3 \<le> w" "3 \<le> h" "length map_data = nat (w * h)" "in_map w h x y"
    and "spots_after_flood w h map_data = Inr a"
    and "carved w h map_data ! cell_index w x y = 0" "a ! cell_index w x y = 0"
  shows "\<exists>a' m'. carve w h map_data = Inr (carved w h map_data) \<and>
           spots_before_seal w h map_data = Inr a' \<and> FillMapHoles w h map_data = Inr m' \<and>
           a' = mark_single_holes w h (carved w h map_data) a \<and>
           m' = fill_inaccessible w h (carved w h map_data) a' \<and>
           a' ! cell_index w x y =
             (if orthogonal_sum w h (carved w h map_data) x y = 3 then 1 else 0) \<and>
           m' ! cell_index w x y =
             (if orthogonal_sum w h (carved w h map_data) x y = 3 then 0 else 1) \<and>
           (binary_map map_data \<longrightarrow>
              (orthogonal_sum w h (carved w h map_data) x y = 3 \<longleftrightarrow>
               empty_among orthogonal w h (carved w h map_data) x y = 1))"
proof (rule FillMapHoles_run [OF assms(1,2), of map_data])
  fix a0
  assume run: "spots_after_flood w h map_data = Inr a0"
    "spots_before_seal w h map_data = Inr (mark_single_holes w h (carved w h map_data) a0)"
    "FillMapHoles w h map_data =
       Inr (fill_inaccessible w h (carved w h map_data)
             (mark_single_holes w h (carved w h map_data) a0))"
    "length a0 = nat (w * h)"
  define c where "c = carved w h map_data"
  define a' where "a' = mark_single_holes w h c a"
  from run(1) assms(5) have a0: "a0 = a"
    by simp
  have w0: "0 \<le> w" "0 \<le> h"
    using assms(1,2) by simp_all
  have lenc: "length c = nat (w * h)"
    by (simp add: c_def length_carved assms(3))
  have j: "cell_index w x y < nat (w * h)"
    by (rule cell_index_less [OF assms(4)])
  have 1: "a' ! cell_index w x y = (if orthogonal_sum w h c x y = 3 then 1 else 0)"
    unfolding a'_def
    using mark_single_holes_cell(2) [OF w0 assms(4), of a c] j run(4) assms(6,7)
    by (simp add: a0 c_def)
  have 2: "fill_inaccessible w h c a' ! cell_index w x y =
      (if orthogonal_sum w h c x y = 3 then 0 else 1)"
    using fill_inaccessible_cell(2) [OF w0 assms(4), of c a'] j lenc assms(6) 1
    by (simp add: c_def)
  have 3: "orthogonal_sum w h c x y = 3 \<longleftrightarrow> empty_among orthogonal w h c x y = 1"
    if "binary_map map_data"
    using orthogonal_sum_walls(2) [OF binary_carved [OF that, of w h], of w h x y] lenc
    by (auto simp: c_def)
  show ?thesis
    using run(2,3) 1 2 3 carve_ok [OF assms(1,2), of map_data] unfolding a0 a'_def c_def by simp
qed

theorem single_hole_kept_witness:
  "(3 :: int) \<le> 160 \<and> length pocket_map = nat (160 * 160) \<and> in_map 160 160 0 0 \<and>
   binary_map pocket_map \<and>
   carved 160 160 pocket_map ! cell_index 160 0 0 = 0 \<and>
   orthogonal_sum 160 160 (carved 160 160 pocket_map) 0 0 = 3 \<and>
   empty_among orthogonal 160 160 (carved 160 160 pocket_map) 0 0 = 1 \<and>
   (\<exists>a a' m'. spots_after_flood 160 160 pocket_map = Inr a \<and> a ! cell_index 160 0 0 = 0 \<and>
      spots_before_seal 160 160 pocket_map = Inr a' \<and>
      FillMapHoles 160 160 pocket_map = Inr m' \<and>
      a' ! cell_index 160 0 0 = 1 \<and> m' ! cell_index 160 0 0 = 0)"
proof -
  have wh: "(3 :: int) \<le> 160"
    by simp
  have i: "in_map 160 160 0 0"
    by (simp add: in_map_def)
  have s: "orthogonal_sum 160 160 (carved 160 160 pocket_map) 0 0 = 3"
    by (simp add: orthogonal_sum_def pocket_walls)
  have b: "binary_map pocket_map"
    unfolding binary_map_def pocket_map_def
    using set_update_subset_insert [of "(replicate 25600 (1 :: 8 word))[0 := 0]" 1 0]
      set_update_subset_insert [of "replicate 25600 (1 :: 8 word)" 0 0]
    by auto
  show ?thesis
  proof (rule FillMapHoles_run [OF wh wh, of pocket_map])
    fix a
    assume a: "spots_after_flood 160 160 pocket_map = Inr a"
      and nz: "\<And>x y. in_map 160 160 x y \<Longrightarrow>
           (a ! cell_index 160 x y \<noteq> 0 \<longleftrightarrow> brushed 160 160 (carved 160 160 pocket_map) x y)"
    have z: "a ! cell_index 160 0 0 = 0"
      using nz [OF i] pocket_not_brushed [of 0 0] by simp
    from single_hole_kept [OF wh wh pocket_map_cells(1) i a pocket_carved_cells(1) z] s b a z
    show ?thesis
      using pocket_map_cells(1) i pocket_carved_cells(1) by auto
  qed
qed

subsection \<open>C5: the tile index\<close>

lemma low_bits_kept:
  assumes "0 \<le> k" "k < 16"
  shows "(k OR (v AND 112)) AND 15 = (k :: int)"
proof -
  have "k AND 15 = k"
    using take_bit_int_eq_self [OF assms(1), of 4] assms(2)
    by (simp add: take_bit_eq_mask mask_eq_exp_minus_1)
  moreover have "(v AND 112) AND 15 = 0"
    by (simp add: and.assoc)
  ultimately show ?thesis
    by (simp add: bit.conj_disj_distrib2)
qed

lemma empty_tile_index_adjacency:
  assumes wall: "\<And>u v. wall_at w h m u v \<longleftrightarrow> MAP_DATA w h m u v \<noteq> 0"
    and m: "binary_map m" "length m = nat (w * h)"
  shows "empty_tile_index w h m x y v = adjacency w h m x y OR (v AND VARIATION_MASK)"
    and "0 \<le> adjacency w h m x y" "adjacency w h m x y < 16"
proof -
  have "push_bit 0 (MAP_DATA w h m (x + 1) y) OR
        (push_bit 1 (MAP_DATA w h m x (y + 1)) OR
         (push_bit 2 (MAP_DATA w h m (x - 1) y) OR
          push_bit 3 (MAP_DATA w h m x (y - 1)))) = adjacency w h m x y"
    using binary_MAP_DATA [OF m, of "x + 1" y] binary_MAP_DATA [OF m, of x "y + 1"]
      binary_MAP_DATA [OF m, of "x - 1" y] binary_MAP_DATA [OF m, of x "y - 1"]
    unfolding adjacency_def wall
    by (elim disjE) simp_all
  then show "empty_tile_index w h m x y v = adjacency w h m x y OR (v AND VARIATION_MASK)"
    unfolding empty_tile_index_def or.assoc [symmetric] by (rule arg_cong)
  show "0 \<le> adjacency w h m x y" "adjacency w h m x y < 16"
    by (simp_all add: adjacency_def)
qed

text \<open>
  C5. On a map of 0s and 1s, the tile index that \<open>GenerateMapPixels\<close> hands to \<open>WriteTile\<close>
  for the cell \<open>(x, y)\<close> is \<open>0x80\<close> when the cell is wall; when it is empty it is the four
  adjacency bits (right, down, left, up as bits 0 to 3, each set when that neighbour is
  wall or lies outside the map) ORed with the value \<open>rand()\<close> returned for that cell,
  masked with \<open>0x70\<close>. Whatever that value, the low four bits of the index are the
  adjacency bits; they are \<open>0b0011\<close> for an empty cell with walls to the right and below
  and empty cells to the left and above.
\<close>

theorem tile_index_of_cell:
  assumes "in_map w h x y" "length map_data = nat (w * h)" "binary_map map_data"
  shows "fst (GenerateMapPixels w h map_data r) ! cell_index w x y =
           (if map_data ! cell_index w x y \<noteq> 0 then 0x80
            else adjacency w h map_data x y OR
                 (draws r (drawn r + empties_before map_data (cell_index w x y)) AND 0x70)) \<and>
         (\<forall>v. empty_tile_index w h map_data x y v = adjacency w h map_data x y OR (v AND 0x70) \<and>
              empty_tile_index w h map_data x y v AND 0xF = adjacency w h map_data x y) \<and>
         (wall_at w h map_data (x + 1) y \<and> wall_at w h map_data x (y + 1) \<and>
          \<not> wall_at w h map_data (x - 1) y \<and> \<not> wall_at w h map_data x (y - 1) \<longrightarrow>
            (\<forall>v. empty_tile_index w h map_data x y v AND 0xF = 3))"
proof -
  from assms(1) have w0: "0 \<le> w" "0 \<le> h"
    by (auto simp: in_map_def)
  from assms(1) have b: "0 \<le> x" "x < w"
    by (auto simp: in_map_def)
  have j: "cell_index w x y < nat (w * h)"
    by (rule cell_index_less [OF assms(1)])
  have k: "int (cell_index w x y) = y * w + x"
    using in_map_index_bounds(1) [OF assms(1)] by (simp add: cell_index_def)
  have wall: "wall_at w h map_data u v \<longleftrightarrow> MAP_DATA w h map_data u v \<noteq> 0" for u v
    by (auto simp: MAP_DATA_def wall_at_def uint_0_iff)
  note e = empty_tile_index_adjacency [OF wall assms(3,2), of x y]
  have low: "empty_tile_index w h map_data x y v AND 0xF = adjacency w h map_data x y" for v
    unfolding e(1) VARIATION_MASK_def using low_bits_kept [OF e(2,3)] by simp
  have "fst (GenerateMapPixels w h map_data r) ! cell_index w x y =
      (if map_data ! cell_index w x y \<noteq> 0 then WALL_TILE_INDEX
       else empty_tile_index w h map_data x y
              (draws r (drawn r + empties_before map_data (cell_index w x y))))"
    unfolding GenerateMapPixels_eq [OF w0 assms(2)] fst_conv
    using j index_div_mod [OF b, of y] by (simp add: k)
  then show ?thesis
    using low by (auto simp: e(1) WALL_TILE_INDEX_def VARIATION_MASK_def adjacency_def)
qed

text \<open>
  On the 3x3 map with no wall, the corner \<open>(2, 2)\<close> has the border of the map to its right
  and below, and empty cells to its left and above: its tile index is \<open>0x73\<close> when \<open>rand()\<close>
  returns 255. On the 1x1 map with no wall all four neighbours are outside the map, and the
  index is \<open>0x7F\<close>. The indices of the nine cells of the 3x3 map are given as the code
  computes them.
\<close>

theorem tile_index_of_cell_witness:
  "in_map 3 3 2 2 \<and> length [0, 0, 0, 0, 0, 0, 0, 0, 0 :: 8 word] = nat (3 * 3) \<and>
   binary_map [0, 0, 0, 0, 0, 0, 0, 0, 0] \<and>
   wall_at 3 3 [0, 0, 0, 0, 0, 0, 0, 0, 0] (2 + 1) 2 \<and>
   wall_at 3 3 [0, 0, 0, 0, 0, 0, 0, 0, 0] 2 (2 + 1) \<and>
   \<not> wall_at 3 3 [0, 0, 0, 0, 0, 0, 0, 0, 0] (2 - 1) 2 \<and>
   \<not> wall_at 3 3 [0, 0, 0, 0, 0, 0, 0, 0, 0] 2 (2 - 1) \<and>
   empty_tile_index 3 3 [0, 0, 0, 0, 0, 0, 0, 0, 0] 2 2 255 AND 0xF = 3 \<and>
   fst (GenerateMapPixels 3 3 [0, 0, 0, 0, 0, 0, 0, 0, 0] \<lparr>draws = (\<lambda>n. 255), drawn = 0\<rparr>)
     ! cell_index 3 2 2 = 115 \<and>
   in_map 1 1 0 0 \<and> length [0 :: 8 word] = nat (1 * 1) \<and> binary_map [0] \<and>
   fst (GenerateMapPixels 1 1 [0] \<lparr>draws = (\<lambda>n. 255), drawn = 0\<rparr>) ! cell_index 1 0 0 = 127 \<and>
   empty_tile_index 1 1 [0] 0 0 255 = 0x7F \<and>
   empty_tile_index 3 3 [0, 0, 0, 0, 0, 0, 0, 0, 0] 2 2 255 = 0x73 \<and>
   fst (GenerateMapPixels 3 3 [0, 0, 0, 0, 0, 0, 0, 0, 0] \<lparr>draws = (\<lambda>n. 255), drawn = 0\<rparr>) =
     [0x7C, 0x78, 0x79,
      0x74, 0x70, 0x71,
      0x76, 0x72, 0x73]"
proof -
  have run: "empty_tile_index 1 1 [0] 0 0 255 = 0x7F"
    "empty_tile_index 3 3 [0, 0, 0, 0, 0, 0, 0, 0, 0] 2 2 255 = 0x73"
    "fst (GenerateMapPixels 3 3 [0, 0, 0, 0, 0, 0, 0, 0, 0] \<lparr>draws = (\<lambda>n. 255), drawn = 0\<rparr>) =
       [0x7C, 0x78, 0x79, 0x74, 0x70, 0x71, 0x76, 0x72, 0x73]"
    by code_simp+
  have h: "in_map 3 3 2 2" "length [0, 0, 0, 0, 0, 0, 0, 0, 0 :: 8 word] = nat (3 * 3)"
    "binary_map [0, 0, 0, 0, 0, 0, 0, 0, 0]"
    by (simp_all add: in_map_def binary_map_def)
  have h1: "in_map 1 1 0 0" "length [0 :: 8 word] = nat (1 * 1)" "binary_map [0]"
    by (simp_all add: in_map_def binary_map_def)
  have n: "wall_at 3 3 [0, 0, 0, 0, 0, 0, 0, 0, 0] (2 + 1) 2"
    "wall_at 3 3 [0, 0, 0, 0, 0, 0, 0, 0, 0] 2 (2 + 1)"
    "\<not> wall_at 3 3 [0, 0, 0, 0, 0, 0, 0, 0, 0] (2 - 1) 2"
    "\<not> wall_at 3 3 [0, 0, 0, 0, 0, 0, 0, 0, 0] 2 (2 - 1)"
    "[0, 0, 0, 0, 0, 0, 0, 0, 0 :: 8 word] ! cell_index 3 2 2 = 0"
    "[0 :: 8 word] ! cell_index 1 0 0 = 0"
    by (simp_all add: wall_at_def cell_index_def)
  have a: "adjacency 3 3 [0, 0, 0, 0, 0, 0, 0, 0, 0] 2 2 = 3" "adjacency 1 1 [0] 0 0 = 15"
    by (simp_all add: adjacency_def wall_at_def cell_index_def)
  from tile_index_of_cell [OF h, of "\<lparr>draws = (\<lambda>n. 255), drawn = 0\<rparr>"]
    tile_index_of_cell [OF h1, of "\<lparr>draws = (\<lambda>n. 255), drawn = 0\<rparr>"] n h h1 a
  have "empty_tile_index 3 3 [0, 0, 0, 0, 0, 0, 0, 0, 0] 2 2 255 AND 0xF = 3"
    "fst (GenerateMapPixels 3 3 [0, 0, 0, 0, 0, 0, 0, 0, 0] \<lparr>draws = (\<lambda>n. 255), drawn = 0\<rparr>)
       ! cell_index 3 2 2 = 115"
    "fst (GenerateMapPixels 1 1 [0] \<lparr>draws = (\<lambda>n. 255), drawn = 0\<rparr>) ! cell_index 1 0 0 = 127"
    by simp_all
  with n(1-4) h h1 run show ?thesis
    by (intro conjI)
qed

subsection \<open>C7: the run is a function of the dimensions and the random source\<close>

lemma FillMapHoles_error:
  "\<not> (3 \<le> w \<and> 3 \<le> h) \<Longrightarrow> FillMapHoles w h m = Inl OutOfBounds"
  by (simp add: FillMapHoles_def carve_error)

lemma FillMapHoles_ok:
  assumes "3 \<le> w" "3 \<le> h"
  shows "\<exists>m'. FillMapHoles w h m = Inr m'"
  by (rule FillMapHoles_run [OF assms, of m]) blast

lemma SmoothMapCells_buffer:
  assumes "0 \<le> w" "0 \<le> h" "length m = nat (w * h)" "length b = nat (w * h)"
    "length b' = nat (w * h)"
  shows "SmoothMapCells w h m b = SmoothMapCells w h m b'"
proof -
  have "smooth_pass w h (m, b) = smooth_pass w h (m, b')"
    unfolding smooth_pass_eq [OF assms(1-4)] smooth_pass_eq [OF assms(1-3,5)]
      smooth_buffer_eq [OF assms(1,2,4)] smooth_buffer_eq [OF assms(1,2,5)] ..
  then show ?thesis
    unfolding SmoothMapCells_passes by (simp add: numeral_eq_Suc funpow_swap1)
qed

text \<open>
  C7. A run is determined by the dimensions, the test applied to the values drawn and the
  random source: what \<open>map_data\<close> held before, and what \<open>malloc\<close> left in \<open>buffer\<close>, do not
  reach the final \<open>map_data\<close> nor the tile indices. Two runs that agree on the former
  give the same final map and the same tile indices.
\<close>

theorem generate_deterministic:
  assumes "length map_data = nat (w * h)" "length map_data' = nat (w * h)"
    and "length buffer = nat (w * h)" "length buffer' = nat (w * h)"
  shows "generate below w h map_data buffer r = generate below w h map_data' buffer' r"
proof (cases "3 \<le> w \<and> 3 \<le> h")
  case False
  then show ?thesis
    by (simp add: generate_def GenerateMapCells_def Let_def case_prod_unfold FillMapHoles_error)
next
  case True
  then have w0: "0 \<le> w" "0 \<le> h"
    by simp_all
  define m1 :: cells where
    "m1 = map (\<lambda>k. if below (draws r (drawn r + k)) then 1 else 0) [0 ..< nat (w * h)]"
  have g: "GenerateRandomMapCells below w h (map_data, r) = (m1, r\<lparr>drawn := drawn r + nat (w * h)\<rparr>)"
    "GenerateRandomMapCells below w h (map_data', r) = (m1, r\<lparr>drawn := drawn r + nat (w * h)\<rparr>)"
    unfolding m1_def
    by (rule GenerateRandomMapCells_eq [OF w0 assms(1)], rule GenerateRandomMapCells_eq [OF w0 assms(2)])
  have "length m1 = nat (w * h)"
    by (simp add: m1_def)
  from SmoothMapCells_buffer [OF w0 this assms(3,4)]
  have "GenerateMapCells below w h map_data buffer r = GenerateMapCells below w h map_data' buffer' r"
    by (simp add: GenerateMapCells_def g)
  then show ?thesis
    by (simp add: generate_def)
qed

theorem generate_deterministic_witness:
  "length [0, 0, 0, 0, 0, 0, 0, 0, 0 :: 8 word] = nat (3 * 3) \<and>
   length [1, 1, 1, 1, 1, 1, 1, 1, 1 :: 8 word] = nat (3 * 3) \<and>
   length [5, 5, 5, 5, 5, 5, 5, 5, 5 :: 8 word] = nat (3 * 3) \<and>
   length [7, 8, 9, 7, 8, 9, 7, 8, 9 :: 8 word] = nat (3 * 3) \<and>
   generate (\<lambda>v. v < 45) 3 3 [0, 0, 0, 0, 0, 0, 0, 0, 0] [5, 5, 5, 5, 5, 5, 5, 5, 5]
     \<lparr>draws = (\<lambda>n. int n * 10), drawn = 0\<rparr> =
   generate (\<lambda>v. v < 45) 3 3 [1, 1, 1, 1, 1, 1, 1, 1, 1] [7, 8, 9, 7, 8, 9, 7, 8, 9]
     \<lparr>draws = (\<lambda>n. int n * 10), drawn = 0\<rparr>"
  using generate_deterministic [of "[0, 0, 0, 0, 0, 0, 0, 0, 0]" 3 3 "[1, 1, 1, 1, 1, 1, 1, 1, 1]"
      "[5, 5, 5, 5, 5, 5, 5, 5, 5]" "[7, 8, 9, 7, 8, 9, 7, 8, 9]" "\<lambda>v. v < 45"
      "\<lparr>draws = (\<lambda>n. int n * 10), drawn = 0\<rparr>"]
  by simp

subsection \<open>C9: what is checked before the map is generated\<close>

text \<open>
  C9, as the code has it. The width, the height, the wall probability, the number of
  passes and the threshold are constants of the source (160, 160, 0.45, 4, 4); no code
  checks them. \<open>FillMapHoles\<close> stores outside the map exactly when the width or the height
  is below 3, and it does so after the random cells have been drawn and smoothed. With
  the constants of the source a run never leaves the arrays. What \<open>main\<close> rejects before it
  generates anything is a wrong argument count, output to a terminal, and a tile image
  that cannot be read, has another size than 128x72, or cannot be loaded; otherwise it
  generates the map.
\<close>

theorem checks_before_generation:
  "(FillMapHoles w h map_data = Inl OutOfBounds \<longleftrightarrow> w < 3 \<or> h < 3) \<and>
   (GenerateMapCells below w h map_data buffer r = Inl OutOfBounds \<longleftrightarrow> w < 3 \<or> h < 3) \<and>
   (\<exists>m tiles. generate below MAP_WIDTH MAP_HEIGHT map_data buffer r = Inr (m, tiles)) \<and>
   (main args below map_data buffer r = generate below MAP_WIDTH MAP_HEIGHT map_data buffer r \<longleftrightarrow>
      argc args = 3 \<and> \<not> (output_is_dash args \<and> stdout_isatty args) \<and> tiles_begin_read args \<and>
      tiles_width args = 128 \<and> tiles_height args = 72 \<and> tiles_finish_read args) \<and>
   (main args below map_data buffer r \<noteq> generate below MAP_WIDTH MAP_HEIGHT map_data buffer r
      \<longrightarrow> main args below map_data buffer r \<in>
            {Inl Usage, Inl StdoutIsTty, Inl ErrorReading, Inl UnexpectedTileSize, Inl ErrorLoading})"
proof -
  have f: "FillMapHoles w h m = Inl OutOfBounds \<longleftrightarrow> w < 3 \<or> h < 3" for w h m
  proof (cases "3 \<le> w \<and> 3 \<le> h")
    case True
    then show ?thesis
      using FillMapHoles_ok [of w h m] by auto
  next
    case False
    then show ?thesis
      using FillMapHoles_error [of w h m] by auto
  qed
  have c: "GenerateMapCells below w h map_data buffer r = Inl OutOfBounds \<longleftrightarrow> w < 3 \<or> h < 3"
    for w h
    using f [of w h "SmoothMapCells w h
        (fst (GenerateRandomMapCells below w h (map_data, r))) buffer"]
    by (auto simp: GenerateMapCells_def Let_def case_prod_unfold split: sum.splits)
  have "\<exists>m r1. GenerateMapCells below MAP_WIDTH MAP_HEIGHT map_data buffer r = Inr (m, r1)"
    using FillMapHoles_ok [of 160 160 "SmoothMapCells 160 160
        (fst (GenerateRandomMapCells below 160 160 (map_data, r))) buffer"]
    by (auto simp: GenerateMapCells_def Let_def case_prod_unfold MAP_WIDTH_def MAP_HEIGHT_def)
  then have g: "\<exists>m tiles. generate below MAP_WIDTH MAP_HEIGHT map_data buffer r = Inr (m, tiles)"
    by (auto simp: generate_def)
  show ?thesis
    using f [of w h map_data] c [of w h] g
    by (auto simp: main_def TILE_IMAGE_WIDTH_def TILE_IMAGE_HEIGHT_def TILE_SIZE_def)
qed

theorem checks_before_generation_witness:
  "(2 :: int) < 3 \<and> FillMapHoles 2 2 [0, 0, 0, 0] = Inl OutOfBounds \<and>
   GenerateMapCells (\<lambda>v. v < 45) 2 2 [0, 0, 0, 0] [0, 0, 0, 0] \<lparr>draws = (\<lambda>n. 0), drawn = 0\<rparr>
     = Inl OutOfBounds \<and>
   (\<exists>m tiles. generate (\<lambda>v. v < 45) MAP_WIDTH MAP_HEIGHT [0, 0, 0, 0] [0, 0, 0, 0]
      \<lparr>draws = (\<lambda>n. 0), drawn = 0\<rparr> = Inr (m, tiles)) \<and>
   main \<lparr>argc = 2, output_is_dash = False, stdout_isatty = False, tiles_begin_read = True,
         tiles_width = 128, tiles_height = 72, tiles_finish_read = True\<rparr>
     (\<lambda>v. v < 45) [0, 0, 0, 0] [0, 0, 0, 0] \<lparr>draws = (\<lambda>n. 0), drawn = 0\<rparr>
     \<noteq> generate (\<lambda>v. v < 45) MAP_WIDTH MAP_HEIGHT [0, 0, 0, 0] [0, 0, 0, 0]
         \<lparr>draws = (\<lambda>n. 0), drawn = 0\<rparr> \<and>
   main \<lparr>argc = 2, output_is_dash = False, stdout_isatty = False, tiles_begin_read = True,
         tiles_width = 128, tiles_height = 72, tiles_finish_read = True\<rparr>
     (\<lambda>v. v < 45) [0, 0, 0, 0] [0, 0, 0, 0] \<lparr>draws = (\<lambda>n. 0), drawn = 0\<rparr>
     \<in> {Inl Usage, Inl StdoutIsTty, Inl ErrorReading, Inl UnexpectedTileSize, Inl ErrorLoading}"
  using checks_before_generation [of 2 2 "[0, 0, 0, 0]" "\<lambda>v. v < 45" "[0, 0, 0, 0]"
      "\<lparr>draws = (\<lambda>n. 0), drawn = 0\<rparr>"
      "\<lparr>argc = 2, output_is_dash = False, stdout_isatty = False, tiles_begin_read = True,
         tiles_width = 128, tiles_height = 72, tiles_finish_read = True\<rparr>"]
  by simp

text \<open>
  C9 as stated fails: nothing rejects a map too small for the seed. With a width and a
  height of 2, \<open>GenerateMapCells\<close> draws four values and writes the four cells of the
  map, smooths them, and then \<open>FillMapHoles\<close> stores outside the map.
\<close>

theorem small_map_counterexample:
  "fst (GenerateRandomMapCells (\<lambda>v. v < 45) 2 2 ([0, 0, 0, 0], \<lparr>draws = (\<lambda>n. 0), drawn = 0\<rparr>))
     = [1, 1, 1, 1] \<and>
   drawn (snd (GenerateRandomMapCells (\<lambda>v. v < 45) 2 2
     ([0, 0, 0, 0], \<lparr>draws = (\<lambda>n. 0), drawn = 0\<rparr>))) = 4 \<and>
   GenerateMapCells (\<lambda>v. v < 45) 2 2 [0, 0, 0, 0] [0, 0, 0, 0] \<lparr>draws = (\<lambda>n. 0), drawn = 0\<rparr>
     = Inl OutOfBounds \<and>
   generate (\<lambda>v. v < 45) 2 2 [0, 0, 0, 0] [0, 0, 0, 0] \<lparr>draws = (\<lambda>n. 0), drawn = 0\<rparr>
     = Inl OutOfBounds"
proof -
  have "[0 ..< 4] = [0, 1, 2, 3 :: nat]"
    by (simp add: upt_rec)
  then have "GenerateRandomMapCells (\<lambda>v. v < 45) 2 2 ([0, 0, 0, 0], \<lparr>draws = (\<lambda>n. 0), drawn = 0\<rparr>)
      = ([1, 1, 1, 1], \<lparr>draws = (\<lambda>n. 0), drawn = 4\<rparr>)"
    using GenerateRandomMapCells_eq [of 2 2 "[0, 0, 0, 0]" "\<lambda>v. v < 45"
        "\<lparr>draws = (\<lambda>n. 0), drawn = 0\<rparr>"]
    by simp
  moreover have "GenerateMapCells (\<lambda>v. v < 45) 2 2 [0, 0, 0, 0] [0, 0, 0, 0]
      \<lparr>draws = (\<lambda>n. 0), drawn = 0\<rparr> = Inl OutOfBounds"
    by (simp add: GenerateMapCells_def Let_def case_prod_unfold FillMapHoles_error)
  ultimately show ?thesis
    by (simp add: generate_def)
qed

end
